theory Spec2Isabelle
  imports Main "HOL-Library.Word"
begin

unbundle bit_operations_syntax

section \<open>Data model (lowzip.h)\<close>

text \<open>
  The C types: \<open>unsigned char\<close> is an 8-bit word, \<open>unsigned short\<close> a 16-bit word and
  \<open>unsigned int\<close> a 32-bit word; arithmetic on them wraps as in C.
\<close>

type_synonym u8 = "8 word"
type_synonym u16 = "16 word"
type_synonym u32 = "32 word"

text \<open>
  \<open>lowzip_file\<close>, the metadata of the file most recently located. The declaration in
  \<open>lowzip.h\<close> lists no \<open>have_data_descriptor\<close> member although \<open>lowzip.c\<close> assigns and reads
  \<open>fi->have_data_descriptor\<close>.

  Modelled from the spec: the data-descriptor flag of the FileEntry record, missing from the
  struct declaration; it holds what \<open>lowzip_locate_file\<close> stores, bit 3 of the local header's
  flags (0 or 8).
\<close>

record lowzip_file =
  compression_method :: u32
  crc32 :: u32
  compressed_size :: u32
  uncompressed_size :: u32
  data_offset :: u32
  filename :: "u8 list"
  have_data_descriptor :: u32

text \<open>
  \<open>lowzip_state\<close>. The callback together with its \<open>udata\<close> is a function from an offset to
  the value returned (a byte, or a value with bit 8 set for an out of bounds read).

  The output window is the list \<open>output_buf\<close> of the bytes between \<open>output_start\<close> and
  \<open>output_end\<close>, so \<open>output_end - output_start\<close> is its length, and \<open>output_next\<close> is the
  cursor as an index into it (\<open>output_next - output_start\<close>).

  \<open>have_bits\<close> is the field \<open>have\<close> of the C struct, the number of buffered bits, a
  natural number here (an \<open>unsigned int\<close> in C; the decoder resets it to 0 and it then
  stays below 16). \<open>have_error\<close> is the error flag,
  only ever assigned 0 or 1 and tested for being nonzero.

  The scratch area is used in three ways. As an array of 16-bit values it holds the Huffman
  tables (field \<open>scratch\<close>, 510 entries); the byte arrays \<open>codelen_code_lens\<close> and
  \<open>temp_code_lens\<close> of the dynamic block set-up are local lists in
  \<open>lowzip_decode_dynamic_huffman_block\<close>; and the file entry that the ZIP operations keep
  there is the field \<open>file_entry\<close>. The overlay of the file entry with the tables is not modelled:
  \<open>lowzip_get_data\<close> copies what it needs from the entry before it inflates.
\<close>

record lowzip_state =
  read_callback :: "u32 \<Rightarrow> u32"
  zip_length :: u32
  output_buf :: "u8 list"
  output_next :: nat
  central_dir_offset :: u32
  have_error :: bool
  read_offset :: u32
  curr :: u32
  have_bits :: nat
  scratch :: "u16 list"
  file_entry :: lowzip_file

section \<open>Inflate tables\<close>

definition LOWZIP_SCRATCH_HUFF_LIT :: nat where
  "LOWZIP_SCRATCH_HUFF_LIT = 0"

text \<open>Byte offset 604 of the scratch area, as an index of 16-bit entries.\<close>

definition LOWZIP_SCRATCH_HUFF_DIST :: nat where
  "LOWZIP_SCRATCH_HUFF_DIST = 302"

definition lowzip_len_bits :: "u8 list" where
  "lowzip_len_bits =
     [0, 0, 0, 0, 0, 0, 0, 0, 1, 1, 1, 1, 2, 2, 2, 2,
      3, 3, 3, 3, 4, 4, 4, 4, 5, 5, 5, 5, 0]"

definition lowzip_len_base :: "u8 list" where
  "lowzip_len_base =
     [0, 1, 2, 3, 4, 5, 6, 7, 8, 10, 12, 14, 16, 20, 24, 28,
      32, 40, 48, 56, 64, 80, 96, 112, 128, 160, 192, 224, 255]"

definition lowzip_dist_bits :: "u8 list" where
  "lowzip_dist_bits =
     [0, 0, 0, 0, 1, 1, 2, 2, 3, 3, 4, 4, 5, 5, 6, 6, 7, 7,
      8, 8, 9, 9, 10, 10, 11, 11, 12, 12, 13, 13]"

definition lowzip_dist_base :: "u16 list" where
  "lowzip_dist_base =
     [1, 2, 3, 4, 5, 7, 9, 13, 17, 25, 33, 49, 65, 97, 129,
      193, 257, 385, 513, 769, 1025, 1537, 2049, 3073, 4097,
      6145, 8193, 12289, 16385, 24577]"

definition lowzip_codelen_order :: "u8 list" where
  "lowzip_codelen_order =
     [16, 17, 18, 0, 8, 7, 9, 6, 10, 5, 11, 4, 12, 3, 13, 2,
      14, 1, 15]"

section \<open>Read and write helpers\<close>

text \<open>Write an output byte; at the end of the output flag an error and do nothing.\<close>

definition lowzip_write_byte :: "lowzip_state \<Rightarrow> u8 \<Rightarrow> lowzip_state" where
  "lowzip_write_byte st ch =
     (if output_next st \<ge> length (output_buf st) then st\<lparr>have_error := True\<rparr>
      else st\<lparr>output_buf := (output_buf st)[output_next st := ch],
              output_next := output_next st + 1\<rparr>)"

text \<open>
  \<open>lowzip_read_little_endian\<close>: the loop \<open>while (count-- > 0)\<close> reads the byte at
  \<open>offset + count\<close> for the decremented \<open>count\<close>, highest byte first. The accumulator
  \<open>res\<close> starts at 0.
\<close>

fun read_little_endian_loop :: "lowzip_state \<Rightarrow> u32 \<Rightarrow> nat \<Rightarrow> u32 \<Rightarrow> lowzip_state \<times> u32" where
  "read_little_endian_loop st offset 0 res = (st, res)"
| "read_little_endian_loop st offset (Suc count) res =
     (let t = read_callback st (offset + of_nat count) in
      if t AND 0x100 \<noteq> 0 then (st\<lparr>have_error := True\<rparr>, 0)
      else read_little_endian_loop st offset count (push_bit 8 res + t))"

definition lowzip_read_little_endian :: "lowzip_state \<Rightarrow> u32 \<Rightarrow> nat \<Rightarrow> lowzip_state \<times> u32" where
  "lowzip_read_little_endian st offset count = read_little_endian_loop st offset count 0"

definition lowzip_read4 :: "lowzip_state \<Rightarrow> u32 \<Rightarrow> lowzip_state \<times> u32" where
  "lowzip_read4 st offset = lowzip_read_little_endian st offset 4"

definition lowzip_read2 :: "lowzip_state \<Rightarrow> u32 \<Rightarrow> lowzip_state \<times> u32" where
  "lowzip_read2 st offset = lowzip_read_little_endian st offset 2"

definition lowzip_read1 :: "lowzip_state \<Rightarrow> u32 \<Rightarrow> lowzip_state \<times> u32" where
  "lowzip_read1 st offset = lowzip_read_little_endian st offset 1"

text \<open>Read the next input byte at \<open>read_offset\<close>; when out of input flag an error and feed 0.\<close>

definition lowzip_read_byte :: "lowzip_state \<Rightarrow> lowzip_state \<times> u32" where
  "lowzip_read_byte st =
     (let x = read_callback st (read_offset st) in
      if x AND 0x100 = 0 then (st\<lparr>read_offset := read_offset st + 1\<rparr>, x)
      else (st\<lparr>have_error := True\<rparr>, 0))"

text \<open>
  \<open>lowzip_read_bits\<close>. The loop \<open>while (have < nbits)\<close> works on the local copies of
  \<open>curr\<close> and \<open>have\<close>, which are written back after it.
\<close>

function read_bits_fill :: "lowzip_state \<Rightarrow> u32 \<Rightarrow> nat \<Rightarrow> nat \<Rightarrow> lowzip_state \<times> u32 \<times> nat" where
  "read_bits_fill st c h nbits =
     (if h < nbits then
        (case lowzip_read_byte st of (st', x) \<Rightarrow>
           read_bits_fill st' (c OR push_bit h x) (h + 8) nbits)
      else (st, c, h))"
  by pat_completeness auto
termination
  by (relation "measure (\<lambda>(st, c, h, nbits). nbits - h)") auto

declare read_bits_fill.simps [simp del]

definition lowzip_read_bits :: "lowzip_state \<Rightarrow> nat \<Rightarrow> lowzip_state \<times> u32" where
  "lowzip_read_bits st nbits =
     (case read_bits_fill st (curr st) (have_bits st) nbits of (st', c, h) \<Rightarrow>
        (let mask = push_bit nbits 1 - 1;
             res = c AND mask
         in (st'\<lparr>have_bits := h - nbits, curr := drop_bit nbits c\<rparr>, res)))"

text \<open>
  \<open>lowzip_read_bits_reversed\<close> (the variant that is compiled): read the bits, then mirror
  them with two masks.
\<close>

function read_bits_reversed_loop :: "u32 \<Rightarrow> u32 \<Rightarrow> u32 \<Rightarrow> u32 \<Rightarrow> u32" where
  "read_bits_reversed_loop tmp res mask1 mask2 =
     (let mask1' = drop_bit 1 mask1 in
      if mask1' = 0 then res
      else read_bits_reversed_loop tmp (if tmp AND mask1' \<noteq> 0 then res + mask2 else res)
             mask1' (push_bit 1 mask2))"
  by pat_completeness auto
termination
proof (relation "measure (\<lambda>(tmp, res, mask1, mask2). unat mask1)")
  show "wf (measure (\<lambda>(tmp, res, mask1, mask2). unat mask1))"
    by simp
next
  fix tmp res mask1 mask2 :: u32 and x :: u32
  assume x: "x = drop_bit 1 mask1" and nz: "x \<noteq> 0"
  have "unat (drop_bit 1 mask1) = unat mask1 div 2"
    by (simp add: drop_bit_eq_div unat_div)
  moreover have "unat mask1 \<noteq> 0"
    using x nz by (auto simp: unat_eq_0)
  ultimately show "((tmp, if tmp AND x \<noteq> 0 then res + mask2 else res, x, push_bit 1 mask2),
      (tmp, res, mask1, mask2)) \<in> measure (\<lambda>(tmp, res, mask1, mask2). unat mask1)"
    using x by simp
qed

declare read_bits_reversed_loop.simps [simp del]

definition lowzip_read_bits_reversed :: "lowzip_state \<Rightarrow> nat \<Rightarrow> lowzip_state \<times> u32" where
  "lowzip_read_bits_reversed st nbits =
     (case lowzip_read_bits st nbits of (st', tmp) \<Rightarrow>
        (st', read_bits_reversed_loop tmp 0 (push_bit nbits 1) 1))"

definition lowzip_reset_bitstate :: "lowzip_state \<Rightarrow> lowzip_state" where
  "lowzip_reset_bitstate st = st\<lparr>have_bits := 0\<rparr>"

section \<open>Huffman decoding\<close>

text \<open>
  \<open>lowzip_prepare_huffman\<close> writes a table into the scratch area at the index \<open>out_huff\<close>
  (in 16-bit entries): 16 counts, then the terminal values. The code lengths are read from
  the list \<open>code_lens\<close>, whose length is \<open>code_lens_count\<close>.

  First loop: count the codes of each length; a length above 15 is a format error, which
  leaves the loop at once.
\<close>

fun prepare_huffman_counts :: "u16 list \<Rightarrow> nat \<Rightarrow> u8 list \<Rightarrow> u16 list \<times> bool" where
  "prepare_huffman_counts sc out_counts [] = (sc, True)"
| "prepare_huffman_counts sc out_counts (t # ts) =
     (if t > 15 then (sc, False)
      else prepare_huffman_counts
             (sc[out_counts + unat t := sc ! (out_counts + unat t) + 1]) out_counts ts)"

text \<open>
  Second loop nest: for each code length \<open>i\<close> from 1 to 15, the inner loop over the input
  code lengths (index \<open>j\<close>, the remaining lengths in the list) stores \<open>j\<close> at \<open>out_codes\<close>
  and advances \<open>out_codes\<close> when the length is \<open>i\<close>.
\<close>

fun prepare_huffman_level :: "u16 list \<Rightarrow> nat \<Rightarrow> nat \<Rightarrow> nat \<Rightarrow> u8 list \<Rightarrow> u16 list \<times> nat" where
  "prepare_huffman_level sc out_codes i j [] = (sc, out_codes)"
| "prepare_huffman_level sc out_codes i j (t # ts) =
     (if unat t = i then prepare_huffman_level (sc[out_codes := of_nat j]) (Suc out_codes) i (Suc j) ts
      else prepare_huffman_level sc out_codes i (Suc j) ts)"

function prepare_huffman_codes :: "u16 list \<Rightarrow> nat \<Rightarrow> nat \<Rightarrow> u8 list \<Rightarrow> u16 list \<times> nat" where
  "prepare_huffman_codes sc out_codes i code_lens =
     (if i \<le> 15 then
        (case prepare_huffman_level sc out_codes i 0 code_lens of (sc', out_codes') \<Rightarrow>
           prepare_huffman_codes sc' out_codes' (i + 1) code_lens)
      else (sc, out_codes))"
  by pat_completeness auto
termination
  by (relation "measure (\<lambda>(sc, out_codes, i, code_lens). 16 - i)") auto

declare prepare_huffman_codes.simps [simp del]

text \<open>The \<open>memset\<close> of the 16 counts.\<close>

definition clear_counts :: "u16 list \<Rightarrow> nat \<Rightarrow> u16 list" where
  "clear_counts sc out_counts = fold (\<lambda>k s. s[out_counts + k := 0]) [0..<16] sc"

definition lowzip_prepare_huffman :: "lowzip_state \<Rightarrow> u8 list \<Rightarrow> nat \<Rightarrow> lowzip_state" where
  "lowzip_prepare_huffman st code_lens out_huff =
     (case prepare_huffman_counts (clear_counts (scratch st) out_huff) out_huff code_lens of
        (sc, ok) \<Rightarrow>
          if \<not> ok then st\<lparr>scratch := sc, have_error := True\<rparr>
          else st\<lparr>scratch := fst (prepare_huffman_codes sc (out_huff + 16) 1 code_lens)\<rparr>)"

text \<open>
  \<open>lowzip_decode_huffman\<close>. The loop over the bit lengths 1 to 15 either finds the index of
  the terminal value in the codes part of the table (\<open>Some\<close>), or runs out of lengths
  (\<open>None\<close>). \<open>code\<close>, \<open>code_start\<close> and \<open>codes_offset\<close> are \<open>unsigned int\<close>, and the
  test \<open>code - code_start < curr_count\<close> is an unsigned comparison.
\<close>

function decode_huffman_loop ::
  "lowzip_state \<Rightarrow> nat \<Rightarrow> nat \<Rightarrow> u32 \<Rightarrow> u32 \<Rightarrow> u32 \<Rightarrow> lowzip_state \<times> u32 option" where
  "decode_huffman_loop st huff i code code_start codes_offset =
     (if i \<le> 15 then
        (case lowzip_read_bits st 1 of (st', b) \<Rightarrow>
           (let code' = push_bit 1 code + b;
                curr_count = (ucast (scratch st' ! (huff + i)) :: u32)
            in if code' - code_start < curr_count
               then (st', Some (codes_offset + code' - code_start))
               else decode_huffman_loop st' huff (i + 1) code'
                      (push_bit 1 (code_start + curr_count)) (codes_offset + curr_count)))
      else (st, None))"
  by pat_completeness auto
termination
  by (relation "measure (\<lambda>(st, huff, i, code, code_start, codes_offset). 16 - i)") auto

declare decode_huffman_loop.simps [simp del]

definition lowzip_decode_huffman :: "lowzip_state \<Rightarrow> nat \<Rightarrow> lowzip_state \<times> u32" where
  "lowzip_decode_huffman st huff =
     (case decode_huffman_loop st huff 1 0 0 0 of
        (st', Some idx) \<Rightarrow> (st', ucast (scratch st' ! (huff + 16 + unat idx)))
      | (st', None) \<Rightarrow> (st'\<lparr>have_error := True\<rparr>, 0))"

section \<open>Inflate block decoding\<close>

text \<open>
  \<open>lowzip_decode_uncompressed_block\<close>: the copy loop \<open>while (len-- > 0)\<close> runs \<open>len\<close> times.
\<close>

fun uncompressed_copy :: "lowzip_state \<Rightarrow> nat \<Rightarrow> lowzip_state" where
  "uncompressed_copy st 0 = st"
| "uncompressed_copy st (Suc len) =
     (case lowzip_read_byte st of (st', x) \<Rightarrow>
        uncompressed_copy (lowzip_write_byte st' (ucast x)) len)"

definition lowzip_decode_uncompressed_block :: "lowzip_state \<Rightarrow> lowzip_state" where
  "lowzip_decode_uncompressed_block st =
     (case lowzip_read_byte (lowzip_reset_bitstate st) of (st1, lo) \<Rightarrow>
      case lowzip_read_byte st1 of (st2, hi) \<Rightarrow>
      case lowzip_read_byte st2 of (st3, nlen_lo) \<Rightarrow>
      case lowzip_read_byte st3 of (st4, nlen_hi) \<Rightarrow>
        uncompressed_copy st4 (unat (lo + push_bit 8 hi)))"

text \<open>
  The pieces of the loop body of \<open>lowzip_decode_huffman_block_data\<close>.

  \<open>block_data_symbol\<close>: decode the next literal/length symbol \<open>t\<close>, from the dynamic table or
  with the hand-crafted static decoder.
\<close>

definition block_data_symbol :: "lowzip_state \<Rightarrow> bool \<Rightarrow> lowzip_state \<times> u32" where
  "block_data_symbol st static_huffman =
     (if \<not> static_huffman then lowzip_decode_huffman st LOWZIP_SCRATCH_HUFF_LIT
      else
        (case lowzip_read_bits_reversed st 7 of (st1, t) \<Rightarrow>
           if t \<le> 0x17 then (st1, t + 256)
           else if t \<le> 0x5f then
             (case lowzip_read_bits st1 1 of (st2, b) \<Rightarrow> (st2, push_bit 1 t + b - 48))
           else if t \<le> 0x63 then
             (case lowzip_read_bits st1 1 of (st2, b) \<Rightarrow> (st2, push_bit 1 t + b + 88))
           else
             (case lowzip_read_bits_reversed st1 2 of (st2, b) \<Rightarrow> (st2, push_bit 2 t + b - 256))))"

text \<open>\<open>block_data_distance\<close>: decode the distance symbol.\<close>

definition block_data_distance :: "lowzip_state \<Rightarrow> bool \<Rightarrow> lowzip_state \<times> u32" where
  "block_data_distance st static_huffman =
     (if \<not> static_huffman then lowzip_decode_huffman st LOWZIP_SCRATCH_HUFF_DIST
      else lowzip_read_bits_reversed st 5)"

text \<open>
  The copy loop of a back-reference, \<open>while (back_len-- > 0)\<close>: it writes through the
  running pointer without a check of its own.
\<close>

fun back_copy :: "lowzip_state \<Rightarrow> nat \<Rightarrow> nat \<Rightarrow> lowzip_state" where
  "back_copy st back_dist 0 = st"
| "back_copy st back_dist (Suc back_len) =
     back_copy
       (st\<lparr>output_buf := (output_buf st)[output_next st := output_buf st ! (output_next st - back_dist)],
           output_next := output_next st + 1\<rparr>)
       back_dist back_len"

text \<open>
  \<open>block_data_backref\<close>: the branch of the loop body for a symbol \<open>t > 256\<close>. The result is
  the state and whether the branch left through \<open>format_error\<close> or \<open>buffer_error\<close>. The two
  comparisons are made on \<open>ptrdiff_t\<close> values, integers here.
\<close>

definition block_data_backref :: "lowzip_state \<Rightarrow> bool \<Rightarrow> u32 \<Rightarrow> lowzip_state \<times> bool" where
  "block_data_backref st static_huffman t =
     (if t > 285 then (st, True)
      else
        (let k = unat (t - 257) in
         case lowzip_read_bits st (unat (lowzip_len_bits ! k)) of (st1, len_extra) \<Rightarrow>
           (let back_len = (ucast (lowzip_len_base ! k) :: u32) + 3 + len_extra in
            case block_data_distance st1 static_huffman of (st2, d) \<Rightarrow>
              if d > 29 then (st2, True)
              else
                (case lowzip_read_bits st2 (unat (lowzip_dist_bits ! unat d)) of (st3, dist_extra) \<Rightarrow>
                   (let back_dist = (ucast (lowzip_dist_base ! unat d) :: u32) + dist_extra in
                    if uint back_dist > int (output_next st3) then (st3, True)
                    else if uint back_len > int (length (output_buf st3)) - int (output_next st3)
                         then (st3, True)
                    else (back_copy st3 (unat back_dist) (unat back_len), False))))))"

text \<open>
  Facts needed for the termination of the block data loop. \<open>reads_only st st'\<close>: the
  step from \<open>st\<close> to \<open>st'\<close> left the callback, the archive length, the output window and
  the Huffman tables as they were.
\<close>

definition reads_only :: "lowzip_state \<Rightarrow> lowzip_state \<Rightarrow> bool" where
  "reads_only st st' \<longleftrightarrow>
     read_callback st' = read_callback st \<and> zip_length st' = zip_length st \<and>
     output_buf st' = output_buf st \<and> output_next st' = output_next st \<and>
     scratch st' = scratch st"

lemma reads_only_refl [simp]: "reads_only st st"
  by (simp add: reads_only_def)

lemma reads_only_trans: "reads_only a b \<Longrightarrow> reads_only b c \<Longrightarrow> reads_only a c"
  by (simp add: reads_only_def)

lemma read_byte_reads_only: "reads_only st (fst (lowzip_read_byte st))"
  by (simp add: lowzip_read_byte_def reads_only_def Let_def)

lemma read_bits_fill_reads_only: "reads_only st (fst (read_bits_fill st c h n))"
proof (induction st c h n rule: read_bits_fill.induct)
  case (1 st c h nbits)
  show ?case
  proof (cases "h < nbits")
    case True
    obtain st' x where rb: "lowzip_read_byte st = (st', x)"
      by (cases "lowzip_read_byte st")
    have "reads_only st st'"
      using read_byte_reads_only [of st] rb by simp
    moreover have "reads_only st' (fst (read_bits_fill st' (c OR push_bit h x) (h + 8) nbits))"
      using "1.IH" [OF True rb [symmetric]] .
    ultimately show ?thesis
      using True rb by (subst read_bits_fill.simps) (auto intro: reads_only_trans)
  next
    case False
    then show ?thesis
      by (subst read_bits_fill.simps) simp
  qed
qed

lemma read_bits_reads_only: "reads_only st (fst (lowzip_read_bits st n))"
  using read_bits_fill_reads_only [of st "curr st" "have_bits st" n]
  by (auto simp: lowzip_read_bits_def reads_only_def Let_def split: prod.splits)

lemma read_bits_reversed_reads_only: "reads_only st (fst (lowzip_read_bits_reversed st n))"
  using read_bits_reads_only [of st n]
  by (auto simp: lowzip_read_bits_reversed_def split: prod.splits)

lemma read_bits_bound: "unat (snd (lowzip_read_bits st n)) < 2 ^ n"
proof -
  have "(c :: u32) AND (push_bit n 1 - 1) = take_bit n c" for c
    by (simp add: push_bit_of_1 flip: mask_eq_exp_minus_1 take_bit_eq_mask)
  then show ?thesis
    by (auto simp: lowzip_read_bits_def Let_def unsigned_take_bit_eq split: prod.splits)
qed


lemma decode_huffman_loop_reads_only:
  "reads_only st (fst (decode_huffman_loop st huff i code code_start codes_offset))"
proof (induction st huff i code code_start codes_offset rule: decode_huffman_loop.induct)
  case (1 st huff i code code_start codes_offset)
  show ?case
  proof (cases "i \<le> 15")
    case True
    obtain st' b where rb: "lowzip_read_bits st 1 = (st', b)"
      by (cases "lowzip_read_bits st 1")
    have r: "reads_only st st'"
      using read_bits_reads_only [of st 1] rb by simp
    show ?thesis
    proof (cases "push_bit 1 code + b - code_start < ucast (scratch st' ! (huff + i))")
      case t: True
      then show ?thesis
        using True rb r by (subst decode_huffman_loop.simps) (simp add: Let_def)
    next
      case f: False
      have "reads_only st' (fst (decode_huffman_loop st' huff (i + 1) (push_bit 1 code + b)
              (push_bit 1 (code_start + ucast (scratch st' ! (huff + i))))
              (codes_offset + ucast (scratch st' ! (huff + i)))))"
        using "1.IH" [OF True rb [symmetric] refl refl f] .
      then show ?thesis
        using True rb r f
        by (subst decode_huffman_loop.simps) (auto simp: Let_def intro: reads_only_trans)
    qed
  next
    case False
    then show ?thesis
      by (subst decode_huffman_loop.simps) simp
  qed
qed

lemma decode_huffman_reads_only: "reads_only st (fst (lowzip_decode_huffman st huff))"
  using decode_huffman_loop_reads_only [of st huff 1 0 0 0]
  by (auto simp: lowzip_decode_huffman_def reads_only_def split: prod.splits option.splits)

lemma block_data_symbol_reads_only: "reads_only st (fst (block_data_symbol st static_huffman))"
proof (cases static_huffman)
  case False
  then show ?thesis
    by (simp add: block_data_symbol_def decode_huffman_reads_only)
next
  case True
  obtain st1 t where a: "lowzip_read_bits_reversed st 7 = (st1, t)"
    by (cases "lowzip_read_bits_reversed st 7")
  have r1: "reads_only st st1"
    using read_bits_reversed_reads_only [of st 7] a by simp
  have r2: "reads_only st (fst (lowzip_read_bits st1 1))"
    using r1 read_bits_reads_only [of st1 1] by (rule reads_only_trans)
  have r3: "reads_only st (fst (lowzip_read_bits_reversed st1 2))"
    using r1 read_bits_reversed_reads_only [of st1 2] by (rule reads_only_trans)
  show ?thesis
    using True a r1 r2 r3 by (auto simp: block_data_symbol_def split: prod.splits)
qed

lemma block_data_distance_reads_only: "reads_only st (fst (block_data_distance st static_huffman))"
  by (simp add: block_data_distance_def decode_huffman_reads_only read_bits_reversed_reads_only)

lemma back_copy_output_next: "output_next (back_copy st d n) = output_next st + n"
  by (induction n arbitrary: st) auto

lemma back_copy_length: "length (output_buf (back_copy st d n)) = length (output_buf st)"
  by (induction n arbitrary: st) auto

lemma back_copy_have_error: "have_error (back_copy st d n) = have_error st"
  by (induction n arbitrary: st) auto

lemma len_base_extra_nonzero:
  assumes "unat (x :: u32) < 2 ^ n" "n \<le> 5"
  shows "3 \<le> unat ((ucast (b :: u8) :: u32) + 3 + x)"
proof -
  have "unat x < 32"
    using assms power_increasing [of n 5 "2::nat"] by simp
  moreover have "unat (ucast b :: u32) < 256"
  proof -
    have "unat (ucast b :: u32) = take_bit 32 (unat b)"
      by (simp add: unsigned_ucast_eq)
    also have "\<dots> \<le> unat b"
      by (rule take_bit_nat_less_eq_self)
    finally show ?thesis
      using unsigned_less [of b, where 'a = nat] by simp
  qed
  ultimately show ?thesis
    by (simp add: unat_word_ariths)
qed

lemma len_bits_le: "k < 29 \<Longrightarrow> unat (lowzip_len_bits ! k) \<le> 5"
proof -
  have "\<forall>x \<in> set lowzip_len_bits. unat x \<le> 5"
    by (simp add: lowzip_len_bits_def)
  moreover have "length lowzip_len_bits = 29"
    by (simp add: lowzip_len_bits_def)
  moreover assume "k < 29"
  ultimately show ?thesis
    using nth_mem [of k lowzip_len_bits] by metis
qed


lemma block_data_backref_progress:
  assumes t: "256 < t" and r: "block_data_backref st static_huffman t = (st', False)"
  shows "output_next st < output_next st' \<and> output_next st' \<le> length (output_buf st') \<and>
         length (output_buf st') = length (output_buf st)"
proof -
  have le: "t \<le> 285"
    using r by (auto simp: block_data_backref_def split: if_splits)
  define k where "k = unat (t - 257)"
  have "257 \<le> t"
    using t by (simp add: word_less_nat_alt word_le_nat_alt)
  then have "k = unat t - 257"
    unfolding k_def by (simp add: unat_sub)
  then have k: "k < 29"
    using le by (simp add: word_le_nat_alt)
  obtain st1 len_extra where a: "lowzip_read_bits st (unat (lowzip_len_bits ! k)) = (st1, len_extra)"
    by (cases "lowzip_read_bits st (unat (lowzip_len_bits ! k))")
  obtain st2 d where b: "block_data_distance st1 static_huffman = (st2, d)"
    by (cases "block_data_distance st1 static_huffman")
  obtain st3 dist_extra where c: "lowzip_read_bits st2 (unat (lowzip_dist_bits ! unat d)) = (st3, dist_extra)"
    by (cases "lowzip_read_bits st2 (unat (lowzip_dist_bits ! unat d))")
  define back_len where "back_len = (ucast (lowzip_len_base ! k) :: u32) + 3 + len_extra"
  define back_dist where "back_dist = (ucast (lowzip_dist_base ! unat d) :: u32) + dist_extra"
  have "reads_only st st1"
    using read_bits_reads_only [of st "unat (lowzip_len_bits ! k)"] a by simp
  moreover have "reads_only st1 st2"
    using block_data_distance_reads_only [of st1 static_huffman] b by simp
  moreover have "reads_only st2 st3"
    using read_bits_reads_only [of st2 "unat (lowzip_dist_bits ! unat d)"] c by simp
  ultimately have ro: "output_next st3 = output_next st" "output_buf st3 = output_buf st"
    by (simp_all add: reads_only_def)
  have "unat len_extra < 2 ^ unat (lowzip_len_bits ! k)"
    using read_bits_bound [of st "unat (lowzip_len_bits ! k)"] a by simp
  then have three: "3 \<le> unat back_len"
    unfolding back_len_def using len_bits_le [OF k] by (rule len_base_extra_nonzero)
  have res: "st' = back_copy st3 (unat back_dist) (unat back_len)"
    and chk: "\<not> uint back_len > int (length (output_buf st3)) - int (output_next st3)"
    using r le a b c
    by (auto simp: block_data_backref_def Let_def k_def back_len_def back_dist_def
             split: if_splits)
  have "uint back_len \<le> int (length (output_buf st)) - int (output_next st)"
    using chk by (simp add: ro)
  then have "output_next st + unat back_len \<le> length (output_buf st)"
    using uint_nat [of back_len] by linarith
  then show ?thesis
    using three ro by (simp add: res back_copy_output_next back_copy_length)
qed

text \<open>
  \<open>lowzip_decode_huffman_block_data\<close>: the loop \<open>for (;;)\<close>. Every round that does not
  leave the loop advances \<open>output_next\<close> or sets the error flag, so the loop ends.
\<close>

function lowzip_decode_huffman_block_data :: "lowzip_state \<Rightarrow> bool \<Rightarrow> lowzip_state" where
  "lowzip_decode_huffman_block_data st static_huffman =
     (if have_error st then st
      else
        (case block_data_symbol st static_huffman of (st1, t) \<Rightarrow>
           if t < 256 then
             lowzip_decode_huffman_block_data (lowzip_write_byte st1 (ucast t)) static_huffman
           else if t = 256 then st1
           else
             (case block_data_backref st1 static_huffman t of (st2, abort) \<Rightarrow>
                if abort then st2\<lparr>have_error := True\<rparr>
                else lowzip_decode_huffman_block_data st2 static_huffman)))"
  by pat_completeness auto
termination
proof (relation "measure (\<lambda>(st, static_huffman).
         if have_error st then 0 else 1 + (length (output_buf st) - output_next st))")
  show "wf (measure (\<lambda>(st, static_huffman).
         if have_error st then 0 else 1 + (length (output_buf st) - output_next st)))"
    by simp
next
  fix st :: lowzip_state and static_huffman :: bool and st1 :: lowzip_state and t :: u32
  assume ne: "\<not> have_error st" and s: "(st1, t) = block_data_symbol st static_huffman"
    and lit: "t < 256"
  have "reads_only st st1"
    using block_data_symbol_reads_only [of st static_huffman] s by (metis fst_conv)
  then show "((lowzip_write_byte st1 (ucast t), static_huffman), st, static_huffman)
      \<in> measure (\<lambda>(st, static_huffman).
         if have_error st then 0 else 1 + (length (output_buf st) - output_next st))"
    using ne by (auto simp: lowzip_write_byte_def reads_only_def)
next
  fix st :: lowzip_state and static_huffman :: bool and st1 :: lowzip_state and t :: u32
    and st2 :: lowzip_state and abort :: bool
  assume ne: "\<not> have_error st" and s: "(st1, t) = block_data_symbol st static_huffman"
    and nl: "\<not> t < 256" and neob: "t \<noteq> 256"
    and b: "(st2, abort) = block_data_backref st1 static_huffman t"
    and na: "\<not> abort"
  have ro: "reads_only st st1"
    using block_data_symbol_reads_only [of st static_huffman] s by (metis fst_conv)
  have "256 < t"
    using nl neob by simp
  moreover have "block_data_backref st1 static_huffman t = (st2, False)"
    using b na by simp
  ultimately have "output_next st1 < output_next st2 \<and> output_next st2 \<le> length (output_buf st2) \<and>
         length (output_buf st2) = length (output_buf st1)"
    by (rule block_data_backref_progress)
  then show "((st2, static_huffman), st, static_huffman)
      \<in> measure (\<lambda>(st, static_huffman).
         if have_error st then 0 else 1 + (length (output_buf st) - output_next st))"
    using ne ro by (auto simp: reads_only_def)
qed

declare lowzip_decode_huffman_block_data.simps [simp del]

definition lowzip_decode_static_huffman_block :: "lowzip_state \<Rightarrow> lowzip_state" where
  "lowzip_decode_static_huffman_block st = lowzip_decode_huffman_block_data st True"

text \<open>
  \<open>lowzip_decode_dynamic_huffman_block\<close>. First loop: read \<open>nclen\<close> three-bit lengths into
  \<open>codelen_code_lens\<close> in the permuted order.
\<close>

function read_codelen_lens :: "lowzip_state \<Rightarrow> nat \<Rightarrow> nat \<Rightarrow> u8 list \<Rightarrow> lowzip_state \<times> u8 list" where
  "read_codelen_lens st i nclen codelen_code_lens =
     (if i < nclen then
        (case lowzip_read_bits st 3 of (st', v) \<Rightarrow>
           read_codelen_lens st' (i + 1) nclen
             (codelen_code_lens[unat (lowzip_codelen_order ! i) := ucast v]))
      else (st, codelen_code_lens))"
  by pat_completeness auto
termination
  by (relation "measure (\<lambda>(st, i, nclen, cl). nclen - i)") auto

declare read_codelen_lens.simps [simp del]

text \<open>
  One round of the code length loop decodes a symbol \<open>t\<close> and turns it into the pair of
  \<open>rep_code\<close> and \<open>rep_count\<close>, or leaves through \<open>format_error\<close> (\<open>None\<close>).
\<close>

definition dynamic_code_len_symbol ::
  "lowzip_state \<Rightarrow> nat \<Rightarrow> u8 list \<Rightarrow> lowzip_state \<times> (u8 \<times> u32) option" where
  "dynamic_code_len_symbol st i temp_code_lens =
     (case lowzip_decode_huffman st 0 of (st1, t) \<Rightarrow>
        if t < 16 then (st1, Some (ucast t, 1))
        else if t = 16 then
          (if i = 0 then (st1, None)
           else (case lowzip_read_bits st1 2 of (st2, x) \<Rightarrow>
                   (st2, Some (temp_code_lens ! (i - 1), 3 + x))))
        else if t = 17 then
          (case lowzip_read_bits st1 3 of (st2, x) \<Rightarrow> (st2, Some (0, 3 + x)))
        else if t \<noteq> 18 then (st1, None)
        else
          (case lowzip_read_bits st1 7 of (st2, x) \<Rightarrow> (st2, Some (0, 11 + x))))"

text \<open>
  The inner loop \<open>while (rep_count-- > 0)\<close> with its bounds check; the last component tells
  whether it left through \<open>format_error\<close>.
\<close>

fun rep_emit :: "u8 list \<Rightarrow> nat \<Rightarrow> nat \<Rightarrow> u8 \<Rightarrow> nat \<Rightarrow> u8 list \<times> nat \<times> bool" where
  "rep_emit temp_code_lens i n rep_code 0 = (temp_code_lens, i, False)"
| "rep_emit temp_code_lens i n rep_code (Suc rep_count) =
     (if i \<ge> n then (temp_code_lens, i, True)
      else rep_emit (temp_code_lens[i := rep_code]) (Suc i) n rep_code rep_count)"

lemma rep_emit_advance:
  "rep_emit temp i n rep_code k = (temp', i', False) \<Longrightarrow> i' = i + k \<and> (k = 0 \<or> i' \<le> n)"
proof (induction k arbitrary: temp i)
  case 0
  then show ?case by simp
next
  case (Suc k)
  from Suc.prems have lt: "i < n"
    and r: "rep_emit (temp[i := rep_code]) (Suc i) n rep_code k = (temp', i', False)"
    by (auto split: if_splits)
  from Suc.IH [OF r] lt show ?case by auto
qed

lemma dynamic_code_len_symbol_count:
  assumes "dynamic_code_len_symbol st i temp = (st', Some (rep_code, rep_count))"
  shows "1 \<le> unat rep_count"
proof -
  have small: "1 \<le> unat (c + x)" if "unat x < 2 ^ 7" "c = 3 \<or> c = 11" for c x :: u32
    using that by (auto simp: unat_word_ariths)
  have b2: "unat (snd (lowzip_read_bits s 2)) < 2 ^ 7" for s
    using read_bits_bound [of s 2] by simp
  have b3: "unat (snd (lowzip_read_bits s 3)) < 2 ^ 7" for s
    using read_bits_bound [of s 3] by simp
  have b7: "unat (snd (lowzip_read_bits s 7)) < 2 ^ 7" for s
    using read_bits_bound [of s 7] by simp
  obtain st1 t where d: "lowzip_decode_huffman st 0 = (st1, t)"
    by (cases "lowzip_decode_huffman st 0")
  show ?thesis
    using assms d small [OF b2 [of st1]] small [OF b3 [of st1]] small [OF b7 [of st1]]
    by (auto simp: dynamic_code_len_symbol_def split: if_splits prod.splits)
qed

text \<open>The code length loop \<open>for (i = 0; i != nlit + ndist;)\<close>, with \<open>n = nlit + ndist\<close>.\<close>

function dynamic_code_lens ::
  "lowzip_state \<Rightarrow> nat \<Rightarrow> nat \<Rightarrow> u8 list \<Rightarrow> lowzip_state \<times> u8 list \<times> nat \<times> bool" where
  "dynamic_code_lens st i n temp_code_lens =
     (if i = n then (st, temp_code_lens, i, False)
      else
        (case dynamic_code_len_symbol st i temp_code_lens of
           (st1, None) \<Rightarrow> (st1, temp_code_lens, i, True)
         | (st1, Some (rep_code, rep_count)) \<Rightarrow>
             (case rep_emit temp_code_lens i n rep_code (unat rep_count) of
                (temp_code_lens', i', failed) \<Rightarrow>
                  if failed then (st1, temp_code_lens', i', True)
                  else dynamic_code_lens st1 i' n temp_code_lens')))"
  by pat_completeness auto
termination
proof (relation "measure (\<lambda>(st, i, n, temp). n - i)")
  show "wf (measure (\<lambda>(st, i, n, temp). n - i))"
    by simp
next
  fix st st1 :: lowzip_state and i n i' :: nat and temp temp' :: "u8 list"
    and rc :: "(u8 \<times> u32) option" and p :: "u8 \<times> u32" and rep_code :: u8 and rep_count :: u32
    and q :: "nat \<times> bool" and failed :: bool
  assume "i \<noteq> n" and a: "(st1, rc) = dynamic_code_len_symbol st i temp" and b: "rc = Some p"
    and c: "(rep_code, rep_count) = p"
    and d: "(temp', q) = rep_emit temp i n rep_code (unat rep_count)"
    and e: "(i', failed) = q" and f: "\<not> failed"
  have "1 \<le> unat rep_count"
    using a b c dynamic_code_len_symbol_count [of st i temp st1 rep_code rep_count] by simp
  moreover have "rep_emit temp i n rep_code (unat rep_count) = (temp', i', False)"
    using d e f by simp
  ultimately have "i < i' \<and> i' \<le> n"
    using rep_emit_advance [of temp i n rep_code "unat rep_count" temp' i'] by auto
  then show "((st1, i', n, temp'), st, i, n, temp) \<in> measure (\<lambda>(st, i, n, temp). n - i)"
    by auto
qed

declare dynamic_code_lens.simps [simp del]

text \<open>
  The whole dynamic block. \<open>codelen_code_lens\<close> (19 bytes, cleared by \<open>memset\<close>) and
  \<open>temp_code_lens\<close> (the last 320 bytes of the scratch area) are local lists; no entry of
  \<open>temp_code_lens\<close> is read before the loop has written it, so its initial contents, zeros
  here, do not matter. The code length table is built at the start of the scratch area,
  where the literal/length table replaces it afterwards.
\<close>

definition lowzip_decode_dynamic_huffman_block :: "lowzip_state \<Rightarrow> lowzip_state" where
  "lowzip_decode_dynamic_huffman_block st =
     (case lowzip_read_bits st 5 of (st1, a) \<Rightarrow>
      case lowzip_read_bits st1 5 of (st2, b) \<Rightarrow>
      case lowzip_read_bits st2 4 of (st3, c) \<Rightarrow>
        (let nlit = a + 257; ndist = b + 1; nclen = c + 4 in
         case read_codelen_lens st3 0 (unat nclen) (replicate 19 0) of (st4, codelen_code_lens) \<Rightarrow>
           (let st5 = lowzip_prepare_huffman st4 codelen_code_lens 0 in
            if have_error st5 then st5
            else
              (case dynamic_code_lens st5 0 (unat (nlit + ndist)) (replicate 320 0) of
                 (st6, temp_code_lens, i, failed) \<Rightarrow>
                   if failed then st6\<lparr>have_error := True\<rparr>
                   else
                     (let st7 = lowzip_prepare_huffman st6 (take (unat nlit) temp_code_lens)
                                  LOWZIP_SCRATCH_HUFF_LIT in
                      if have_error st7 then st7
                      else
                        (let st8 = lowzip_prepare_huffman st7
                                     (take (unat ndist) (drop (unat nlit) temp_code_lens))
                                     LOWZIP_SCRATCH_HUFF_DIST in
                         if have_error st8 then st8
                         else lowzip_decode_huffman_block_data st8 False))))))"

text \<open>
  \<open>lowzip_decode_inflate_blocks\<close>: decode blocks until the last block is found. For a
  callback that never reports the end of the input the loop need not end, so the result is
  optional: \<open>None\<close> stands for a run that does not return.
\<close>

definition decode_block :: "lowzip_state \<Rightarrow> u32 \<Rightarrow> lowzip_state" where
  "decode_block st btype =
     (if btype = 0 then lowzip_decode_uncompressed_block st
      else if btype = 1 then lowzip_decode_static_huffman_block st
      else if btype = 2 then lowzip_decode_dynamic_huffman_block st
      else st\<lparr>have_error := True\<rparr>)"

partial_function (option) lowzip_decode_inflate_blocks :: "lowzip_state \<Rightarrow> lowzip_state option" where
  "lowzip_decode_inflate_blocks st =
     (if have_error st then Some st
      else
        (case lowzip_read_bits st 3 of (st1, blockhdr) \<Rightarrow>
           (let st2 = decode_block st1 (drop_bit 1 blockhdr) in
            if blockhdr AND 1 \<noteq> 0 then Some st2
            else lowzip_decode_inflate_blocks st2)))"

declare lowzip_decode_inflate_blocks.simps [code]

definition lowzip_inflate_raw :: "lowzip_state \<Rightarrow> lowzip_state option" where
  "lowzip_inflate_raw st = lowzip_decode_inflate_blocks (lowzip_reset_bitstate st)"

section \<open>ZIP CRC32\<close>

primrec crc32_bits :: "u32 \<Rightarrow> nat \<Rightarrow> u32" where
  "crc32_bits crc 0 = crc"
| "crc32_bits crc (Suc i) =
     crc32_bits (if crc AND 1 \<noteq> 0 then drop_bit 1 crc XOR 0xedb88320 else drop_bit 1 crc) i"

primrec crc32_loop :: "u32 \<Rightarrow> u8 list \<Rightarrow> u32" where
  "crc32_loop crc [] = crc"
| "crc32_loop crc (b # bs) = crc32_loop (crc32_bits (crc XOR ucast b) 8) bs"

text \<open>The bytes between \<open>p_start\<close> and \<open>p_end\<close> are the list \<open>bytes\<close>.\<close>

definition lowzip_zip_crc32 :: "u8 list \<Rightarrow> u32" where
  "lowzip_zip_crc32 bytes = crc32_loop 0xffffffff bytes XOR 0xffffffff"

section \<open>ZIP operations\<close>

definition LOWZIP_MIN_EOCDIR_LENGTH :: int where
  "LOWZIP_MIN_EOCDIR_LENGTH = 22"

definition LOWZIP_MAX_EOCDIR_LENGTH :: int where
  "LOWZIP_MAX_EOCDIR_LENGTH = 65535 + 22"

definition LOWZIP_MIN_CDIRFILE_LENGTH :: u32 where
  "LOWZIP_MIN_CDIRFILE_LENGTH = 46"

definition LOWZIP_MIN_LOCFILE_LENGTH :: u32 where
  "LOWZIP_MIN_LOCFILE_LENGTH = 30"

definition LOWZIP_COMPRESSION_STORE :: u32 where
  "LOWZIP_COMPRESSION_STORE = 0"

definition LOWZIP_COMPRESSION_DEFLATE :: u32 where
  "LOWZIP_COMPRESSION_DEFLATE = 8"

subsection \<open>\<open>lowzip_locate_file\<close>\<close>

text \<open>
  The name is \<open>None\<close> for a null pointer and otherwise the bytes of the C string. The
  comparison loop returns the index \<open>i\<close> at which it stopped.
\<close>

function locate_compare_name ::
  "lowzip_state \<Rightarrow> u32 \<Rightarrow> nat \<Rightarrow> nat \<Rightarrow> u8 list \<Rightarrow> lowzip_state \<times> nat" where
  "locate_compare_name st offset i filename_length name =
     (if i < filename_length then
        (case lowzip_read1 st (offset + LOWZIP_MIN_CDIRFILE_LENGTH + of_nat i) of (st', t) \<Rightarrow>
           if t \<noteq> ucast (name ! i) then (st', i)
           else locate_compare_name st' offset (i + 1) filename_length name)
      else (st, i))"
  by pat_completeness auto
termination
  by (relation "measure (\<lambda>(st, offset, i, filename_length, name). filename_length - i)") auto

declare locate_compare_name.simps [simp del]

text \<open>Whether the entry at \<open>offset\<close> is the one looked for (the variable \<open>found\<close>).\<close>

definition locate_match ::
  "lowzip_state \<Rightarrow> u32 \<Rightarrow> int \<Rightarrow> u8 list option \<Rightarrow> u32 \<Rightarrow> lowzip_state \<times> bool" where
  "locate_match st offset idx name filename_length =
     (case name of
        Some nm \<Rightarrow>
          if unat filename_length = length nm then
            (case locate_compare_name st offset 0 (unat filename_length) nm of
               (st', i) \<Rightarrow> (st', i = unat filename_length))
          else (st, False)
      | None \<Rightarrow> (st, idx = 0))"

text \<open>The loop that copies at most 255 bytes of the file name into the entry.\<close>

function locate_copy_name ::
  "lowzip_state \<Rightarrow> u32 \<Rightarrow> nat \<Rightarrow> nat \<Rightarrow> u8 list \<Rightarrow> lowzip_state \<times> u8 list" where
  "locate_copy_name st offset i n fname =
     (if i < n then
        (case lowzip_read1 st (offset + LOWZIP_MIN_CDIRFILE_LENGTH + of_nat i) of (st', t) \<Rightarrow>
           locate_copy_name st' offset (i + 1) n (fname @ [ucast t]))
      else (st, fname))"
  by pat_completeness auto
termination
  by (relation "measure (\<lambda>(st, offset, i, n, fname). n - i)") auto

declare locate_copy_name.simps [simp del]

text \<open>
  The part of the loop body after a matching entry was found: read the local file header
  and fill in the entry, or leave the loop when the header's magic is wrong. The file name
  stored is the bytes copied and the terminating zero.
\<close>

definition locate_found :: "lowzip_state \<Rightarrow> u32 \<Rightarrow> u32 \<Rightarrow> lowzip_state \<times> lowzip_file option" where
  "locate_found st offset filename_length =
     (case lowzip_read4 st (offset + 42) of (st1, lhdr_offset) \<Rightarrow>
      case lowzip_read4 st1 lhdr_offset of (st2, t) \<Rightarrow>
        if t \<noteq> 0x04034b50 then (st2\<lparr>have_error := True\<rparr>, None)
        else
          (case lowzip_read2 st2 (lhdr_offset + 6) of (st3, flags) \<Rightarrow>
           case lowzip_read2 st3 (lhdr_offset + 8) of (st4, cmethod) \<Rightarrow>
           case lowzip_read4 st4 (lhdr_offset + 14) of (st5, crc) \<Rightarrow>
           case lowzip_read4 st5 (lhdr_offset + 18) of (st6, csize) \<Rightarrow>
           case lowzip_read4 st6 (lhdr_offset + 22) of (st7, usize) \<Rightarrow>
           case lowzip_read2 st7 (lhdr_offset + 26) of (st8, t1) \<Rightarrow>
           case lowzip_read2 st8 (lhdr_offset + 28) of (st9, t2) \<Rightarrow>
             (let n = (if unat filename_length > 255 then 255 else unat filename_length) in
              case locate_copy_name st9 offset 0 n [] of (st10, fname) \<Rightarrow>
                (let fi = \<lparr>compression_method = cmethod, crc32 = crc, compressed_size = csize,
                           uncompressed_size = usize,
                           data_offset = lhdr_offset + LOWZIP_MIN_LOCFILE_LENGTH + (t1 + t2),
                           filename = fname @ [0],
                           have_data_descriptor = flags AND 0x08\<rparr>
                 in (st10\<lparr>file_entry := fi\<rparr>, Some fi)))))"

text \<open>
  The scan of the central directory. \<open>idx\<close> is a C \<open>int\<close>, an integer here. The scan need
  not end for a callback that keeps returning directory entries, so the result is optional.
  The result is the state and the pointer returned (\<open>None\<close> for \<open>NULL\<close>).
\<close>

partial_function (option) locate_file_loop ::
  "lowzip_state \<Rightarrow> u32 \<Rightarrow> int \<Rightarrow> u8 list option \<Rightarrow> (lowzip_state \<times> lowzip_file option) option" where
  "locate_file_loop st offset idx name =
     (case lowzip_read4 st offset of (st1, magic) \<Rightarrow>
        if magic \<noteq> 0x02014b50 then Some (st1\<lparr>have_error := True\<rparr>, None)
        else
          (case lowzip_read2 st1 (offset + 28) of (st2, filename_length) \<Rightarrow>
           case locate_match st2 offset idx name filename_length of (st3, found) \<Rightarrow>
             if \<not> found then
               (case lowzip_read2 st3 (offset + 30) of (st4, extra_length) \<Rightarrow>
                case lowzip_read2 st4 (offset + 32) of (st5, comment_length) \<Rightarrow>
                  locate_file_loop st5
                    (offset + (LOWZIP_MIN_CDIRFILE_LENGTH + (filename_length + extra_length + comment_length)))
                    (if name = None then idx - 1 else idx) name)
             else Some (locate_found st3 offset filename_length)))"

declare locate_file_loop.simps [code]

definition lowzip_locate_file ::
  "lowzip_state \<Rightarrow> int \<Rightarrow> u8 list option \<Rightarrow> (lowzip_state \<times> lowzip_file option) option" where
  "lowzip_locate_file st idx name =
     (let st0 = st\<lparr>have_error := False\<rparr> in
      locate_file_loop st0 (central_dir_offset st0) idx name)"

subsection \<open>\<open>lowzip_init_archive\<close>\<close>

lemma read_little_endian_loop_reads_only:
  "reads_only st (fst (read_little_endian_loop st offset count res))"
  by (induction count arbitrary: res) (auto simp: Let_def reads_only_def)

lemma read_little_endian_reads_only:
  "reads_only st (fst (lowzip_read_little_endian st offset count))"
  by (simp add: lowzip_read_little_endian_def read_little_endian_loop_reads_only)

lemma read4_reads_only: "reads_only st (fst (lowzip_read4 st offset))"
  by (simp add: lowzip_read4_def read_little_endian_reads_only)

lemma read2_reads_only: "reads_only st (fst (lowzip_read2 st offset))"
  by (simp add: lowzip_read2_def read_little_endian_reads_only)

lemma read1_reads_only: "reads_only st (fst (lowzip_read1 st offset))"
  by (simp add: lowzip_read1_def read_little_endian_reads_only)

lemma word32_less_Suc: "(a :: u32) < b \<Longrightarrow> unat (a + 1) = unat a + 1"
proof -
  assume "a < b"
  then have "unat a < unat b"
    by (simp add: word_less_nat_alt)
  moreover have "unat b < 2 ^ 32"
    using unsigned_less [of b, where 'a = nat] by simp
  ultimately show ?thesis
    by (simp add: unat_word_ariths)
qed

text \<open>
  The scan for the end of central directory record. \<open>offset\<close> is a signed \<open>int\<close>; it is
  passed to the read helpers as an \<open>unsigned int\<close>. \<open>(int) st->zip_length\<close> is the signed
  reading of the 32-bit value, and the bound of the loop is computed in \<open>long\<close>. The result
  of the scan is the state at the \<open>return\<close> inside the loop, or the state after the loop
  with the error flag set.
\<close>

function init_archive_scan :: "lowzip_state \<Rightarrow> int \<Rightarrow> lowzip_state" where
  "init_archive_scan st offset =
     (if offset \<ge> sint (zip_length st) - LOWZIP_MAX_EOCDIR_LENGTH then
        (if have_error st then st\<lparr>have_error := True\<rparr>
         else
           (case lowzip_read4 st (of_int offset) of (st1, magic) \<Rightarrow>
              if magic \<noteq> 0x06054b50 then init_archive_scan st1 (offset - 1)
              else
                (case lowzip_read2 st1 (of_int (offset + 20)) of (st2, comment_length) \<Rightarrow>
                   if of_int (offset + LOWZIP_MIN_EOCDIR_LENGTH) + comment_length \<noteq> zip_length st2
                   then init_archive_scan st2 (offset - 1)
                   else
                     (case lowzip_read4 st2 (of_int (offset + 16)) of (st3, cdir_offset) \<Rightarrow>
                        st3\<lparr>central_dir_offset := cdir_offset\<rparr>))))
      else st\<lparr>have_error := True\<rparr>)"
  by pat_completeness auto
termination
proof (relation "measure (\<lambda>(st, offset).
         nat (offset - (sint (zip_length st) - LOWZIP_MAX_EOCDIR_LENGTH) + 1))")
  show "wf (measure (\<lambda>(st, offset).
         nat (offset - (sint (zip_length st) - LOWZIP_MAX_EOCDIR_LENGTH) + 1)))"
    by simp
next
  fix st st1 :: lowzip_state and offset :: int and magic :: u32
  assume "sint (zip_length st) - LOWZIP_MAX_EOCDIR_LENGTH \<le> offset"
    and "(st1, magic) = lowzip_read4 st (word_of_int offset)"
  moreover from this have "zip_length st1 = zip_length st"
    using read4_reads_only [of st "word_of_int offset"]
    by (metis fst_conv reads_only_def)
  ultimately show "((st1, offset - 1), st, offset) \<in> measure (\<lambda>(st, offset).
         nat (offset - (sint (zip_length st) - LOWZIP_MAX_EOCDIR_LENGTH) + 1))"
    by simp
next
  fix st st1 st2 :: lowzip_state and offset :: int and magic comment_length :: u32
  assume "sint (zip_length st) - LOWZIP_MAX_EOCDIR_LENGTH \<le> offset"
    and a: "(st1, magic) = lowzip_read4 st (word_of_int offset)"
    and b: "(st2, comment_length) = lowzip_read2 st1 (word_of_int (offset + 20))"
  moreover have "zip_length st1 = zip_length st"
    using read4_reads_only [of st "word_of_int offset"] a
    by (metis fst_conv reads_only_def)
  moreover have "zip_length st2 = zip_length st1"
    using read2_reads_only [of st1 "word_of_int (offset + 20)"] b
    by (metis fst_conv reads_only_def)
  ultimately show "((st2, offset - 1), st, offset) \<in> measure (\<lambda>(st, offset).
         nat (offset - (sint (zip_length st) - LOWZIP_MAX_EOCDIR_LENGTH) + 1))"
    by simp
qed

declare init_archive_scan.simps [simp del]

definition lowzip_init_archive :: "lowzip_state \<Rightarrow> lowzip_state" where
  "lowzip_init_archive st =
     (let st0 = st\<lparr>have_error := False\<rparr> in
      init_archive_scan st0 (sint (zip_length st0) - LOWZIP_MIN_EOCDIR_LENGTH))"

subsection \<open>\<open>lowzip_get_data\<close>\<close>

text \<open>
  The copy loop of a stored entry, \<open>for (; offset < offset_end; offset++)\<close>; the second
  component tells whether it left through \<open>fail\<close>.
\<close>

function get_data_store :: "lowzip_state \<Rightarrow> u32 \<Rightarrow> u32 \<Rightarrow> lowzip_state \<times> bool" where
  "get_data_store st offset offset_end =
     (if offset < offset_end then
        (if have_error st then (st, True)
         else
           (case lowzip_read1 st offset of (st1, t) \<Rightarrow>
              get_data_store (lowzip_write_byte st1 (ucast t)) (offset + 1) offset_end))
      else (st, False))"
  by pat_completeness auto
termination
proof (relation "measure (\<lambda>(st, offset, offset_end). unat offset_end - unat offset)")
  show "wf (measure (\<lambda>(st, offset, offset_end). unat offset_end - unat offset))"
    by simp
next
  fix st st1 :: lowzip_state and offset offset_end t :: u32
  assume lt: "offset < offset_end"
  then have "unat offset < unat offset_end"
    by (simp add: word_less_nat_alt)
  moreover have "unat (offset + 1) = unat offset + 1"
    using lt by (rule word32_less_Suc)
  ultimately show "((lowzip_write_byte st1 (ucast t), offset + 1, offset_end), st, offset, offset_end)
      \<in> measure (\<lambda>(st, offset, offset_end). unat offset_end - unat offset)"
    by simp
qed

declare get_data_store.simps [simp del]

text \<open>
  The checks after the data was produced: the delayed error check, the output length, and
  the CRC32, which is compared with the header's value or, for an entry with a data
  descriptor, with the value read at \<open>read_offset\<close>. The length comparison is made on
  \<open>ptrdiff_t\<close> values, integers here.
\<close>

definition get_data_header_crc32 :: "lowzip_state \<Rightarrow> u32 \<Rightarrow> u32 \<Rightarrow> lowzip_state \<times> u32" where
  "get_data_header_crc32 st header_crc32 header_have_data_descriptor =
     (if header_have_data_descriptor \<noteq> 0 then
        (case lowzip_read4 st (read_offset st) of (st1, magic) \<Rightarrow>
           if magic = 0x08074b50 then lowzip_read4 st1 (read_offset st1 + 4)
           else lowzip_read4 st1 (read_offset st1))
      else (st, header_crc32))"

definition get_data_validate :: "lowzip_state \<Rightarrow> u32 \<Rightarrow> u32 \<Rightarrow> u32 \<Rightarrow> lowzip_state" where
  "get_data_validate st header_crc32 header_uncompressed_size header_have_data_descriptor =
     (if have_error st then st
      else if int (output_next st) \<noteq> uint header_uncompressed_size then st\<lparr>have_error := True\<rparr>
      else
        (let computed_crc32 = lowzip_zip_crc32 (take (output_next st) (output_buf st)) in
         case get_data_header_crc32 st header_crc32 header_have_data_descriptor of
           (st1, header_crc32') \<Rightarrow>
             if computed_crc32 \<noteq> header_crc32' then st1\<lparr>have_error := True\<rparr> else st1))"

text \<open>
  \<open>lowzip_get_data\<close>. The result is optional because inflating need not return (see
  \<open>lowzip_decode_inflate_blocks\<close>).
\<close>

definition lowzip_get_data :: "lowzip_state \<Rightarrow> lowzip_state option" where
  "lowzip_get_data st =
     (let st0 = st\<lparr>have_error := False\<rparr>;
          fi = file_entry st0;
          header_crc32 = crc32 fi;
          header_uncompressed_size = uncompressed_size fi;
          header_have_data_descriptor = have_data_descriptor fi
      in
        if compression_method fi = LOWZIP_COMPRESSION_STORE then
          (case get_data_store st0 (data_offset fi) (data_offset fi + uncompressed_size fi) of
             (st1, failed) \<Rightarrow>
               if failed then Some (st1\<lparr>have_error := True\<rparr>)
               else Some (get_data_validate st1 header_crc32 header_uncompressed_size
                            header_have_data_descriptor))
        else if compression_method fi = LOWZIP_COMPRESSION_DEFLATE then
          (case lowzip_inflate_raw (st0\<lparr>read_offset := data_offset fi\<rparr>) of
             None \<Rightarrow> None
           | Some st1 \<Rightarrow>
               Some (get_data_validate st1 header_crc32 header_uncompressed_size
                       header_have_data_descriptor))
        else Some (st0\<lparr>have_error := True\<rparr>))"

section \<open>What the operations leave unchanged\<close>

text \<open>
  \<open>writes_within st st'\<close>: the step from \<open>st\<close> to \<open>st'\<close> kept the callback, the archive
  length and the size of the output window, and a cursor that was inside the window is
  still inside it.
\<close>

definition writes_within :: "lowzip_state \<Rightarrow> lowzip_state \<Rightarrow> bool" where
  "writes_within st st' \<longleftrightarrow>
     read_callback st' = read_callback st \<and> zip_length st' = zip_length st \<and>
     length (output_buf st') = length (output_buf st) \<and>
     (output_next st \<le> length (output_buf st) \<longrightarrow> output_next st' \<le> length (output_buf st'))"

lemma writes_within_refl [simp]: "writes_within st st"
  by (simp add: writes_within_def)

lemma writes_within_trans: "writes_within a b \<Longrightarrow> writes_within b c \<Longrightarrow> writes_within a c"
  by (auto simp: writes_within_def)

lemma reads_only_writes_within: "reads_only a b \<Longrightarrow> writes_within a b"
  by (simp add: reads_only_def writes_within_def)

lemma writes_within_have_error [simp]:
  "writes_within a (b\<lparr>have_error := e\<rparr>) = writes_within a b"
  by (simp add: writes_within_def)

lemma write_byte_writes_within: "writes_within st (lowzip_write_byte st ch)"
  by (simp add: writes_within_def lowzip_write_byte_def)

lemma back_copy_frame:
  "read_callback (back_copy st d n) = read_callback st \<and>
   zip_length (back_copy st d n) = zip_length st \<and>
   scratch (back_copy st d n) = scratch st \<and>
   read_offset (back_copy st d n) = read_offset st"
  by (induction n arbitrary: st) auto

lemma block_data_backref_cases:
  obtains (abort) st' where "block_data_backref st static_huffman t = (st', True)"
      and "reads_only st st'"
  | (copy) st3 back_dist back_len where
      "block_data_backref st static_huffman t = (back_copy st3 back_dist back_len, False)"
      and "reads_only st st3" and "back_dist \<le> output_next st3"
      and "output_next st3 + back_len \<le> length (output_buf st3)"
proof (cases "t > 285")
  case True
  then have "block_data_backref st static_huffman t = (st, True)"
    by (simp add: block_data_backref_def)
  then show ?thesis
    using abort by simp
next
  case False
  define k where "k = unat (t - 257)"
  obtain st1 len_extra where a: "lowzip_read_bits st (unat (lowzip_len_bits ! k)) = (st1, len_extra)"
    by (cases "lowzip_read_bits st (unat (lowzip_len_bits ! k))")
  obtain st2 d where b: "block_data_distance st1 static_huffman = (st2, d)"
    by (cases "block_data_distance st1 static_huffman")
  obtain st3 dist_extra where c: "lowzip_read_bits st2 (unat (lowzip_dist_bits ! unat d)) = (st3, dist_extra)"
    by (cases "lowzip_read_bits st2 (unat (lowzip_dist_bits ! unat d))")
  define back_len where "back_len = (ucast (lowzip_len_base ! k) :: u32) + 3 + len_extra"
  define back_dist where "back_dist = (ucast (lowzip_dist_base ! unat d) :: u32) + dist_extra"
  have r1: "reads_only st st1"
    using read_bits_reads_only [of st "unat (lowzip_len_bits ! k)"] a by simp
  have "reads_only st1 st2"
    using block_data_distance_reads_only [of st1 static_huffman] b by simp
  with r1 have r2: "reads_only st st2"
    by (rule reads_only_trans)
  have "reads_only st2 st3"
    using read_bits_reads_only [of st2 "unat (lowzip_dist_bits ! unat d)"] c by simp
  with r2 have r3: "reads_only st st3"
    by (rule reads_only_trans)
  have unfold: "block_data_backref st static_huffman t =
      (if d > 29 then (st2, True)
       else if uint back_dist > int (output_next st3) then (st3, True)
       else if uint back_len > int (length (output_buf st3)) - int (output_next st3) then (st3, True)
       else (back_copy st3 (unat back_dist) (unat back_len), False))"
    using False a b c
    by (simp add: block_data_backref_def Let_def k_def back_len_def back_dist_def)
  show ?thesis
  proof (cases "d > 29 \<or> uint back_dist > int (output_next st3) \<or>
       uint back_len > int (length (output_buf st3)) - int (output_next st3)")
    case True
    then have "block_data_backref st static_huffman t = (st2, True) \<or>
        block_data_backref st static_huffman t = (st3, True)"
      using unfold by auto
    then show ?thesis
      using abort r2 r3 by blast
  next
    case False
    then have res: "block_data_backref st static_huffman t =
        (back_copy st3 (unat back_dist) (unat back_len), False)"
      using unfold by auto
    have "unat back_dist \<le> output_next st3"
      using False uint_nat [of back_dist] by linarith
    moreover have "output_next st3 + unat back_len \<le> length (output_buf st3)"
      using False uint_nat [of back_len] by linarith
    ultimately show ?thesis
      using copy res r3 by blast
  qed
qed

lemma block_data_backref_writes_within:
  "writes_within st (fst (block_data_backref st static_huffman t))"
proof (cases rule: block_data_backref_cases [of st static_huffman t])
  case (abort st')
  then show ?thesis
    by (simp add: reads_only_writes_within)
next
  case (copy st3 back_dist back_len)
  then show ?thesis
    by (simp add: writes_within_def reads_only_def back_copy_frame back_copy_length
        back_copy_output_next)
qed

lemma block_data_writes_within:
  "writes_within st (lowzip_decode_huffman_block_data st static_huffman)"
proof (induction st static_huffman rule: lowzip_decode_huffman_block_data.induct)
  case (1 st static_huffman)
  show ?case
  proof (cases "have_error st")
    case True
    then show ?thesis
      by (subst lowzip_decode_huffman_block_data.simps) simp
  next
    case ne: False
    obtain st1 t where s: "block_data_symbol st static_huffman = (st1, t)"
      by (cases "block_data_symbol st static_huffman")
    have w1: "writes_within st st1"
      using block_data_symbol_reads_only [of st static_huffman] s
      by (simp add: reads_only_writes_within)
    show ?thesis
    proof (cases "t < 256")
      case True
      have "writes_within st1 (lowzip_write_byte st1 (ucast t))"
        by (rule write_byte_writes_within)
      moreover note "1.IH" (1) [OF ne s [symmetric] True]
      ultimately show ?thesis
        using ne s True w1
        by (subst lowzip_decode_huffman_block_data.simps) (auto intro: writes_within_trans)
    next
      case nl: False
      show ?thesis
      proof (cases "t = 256")
        case True
        then show ?thesis
          using ne s w1 by (subst lowzip_decode_huffman_block_data.simps) simp
      next
        case neob: False
        obtain st2 abort where b: "block_data_backref st1 static_huffman t = (st2, abort)"
          by (cases "block_data_backref st1 static_huffman t")
        have w2: "writes_within st st2"
          using block_data_backref_writes_within [of st1 static_huffman t] b w1
          by (auto intro: writes_within_trans)
        show ?thesis
        proof (cases abort)
          case True
          then show ?thesis
            using ne s nl neob b w2 by (subst lowzip_decode_huffman_block_data.simps) simp
        next
          case False
          note "1.IH" (2) [OF ne s [symmetric] nl neob b [symmetric] False]
          then show ?thesis
            using ne s nl neob b w2 False
            by (subst lowzip_decode_huffman_block_data.simps) (auto intro: writes_within_trans)
        qed
      qed
    qed
  qed
qed


lemma uncompressed_copy_writes_within: "writes_within st (uncompressed_copy st len)"
proof (induction len arbitrary: st)
  case 0
  show ?case by simp
next
  case (Suc len)
  obtain st' x where r: "lowzip_read_byte st = (st', x)"
    by (cases "lowzip_read_byte st")
  have "writes_within st st'"
    using read_byte_reads_only [of st] r by (simp add: reads_only_writes_within)
  moreover have "writes_within st' (lowzip_write_byte st' (ucast x))"
    by (rule write_byte_writes_within)
  moreover note Suc.IH [of "lowzip_write_byte st' (ucast x)"]
  ultimately show ?case
    using r by (auto intro: writes_within_trans)
qed

lemma reset_bitstate_reads_only: "reads_only st (lowzip_reset_bitstate st)"
  by (simp add: lowzip_reset_bitstate_def reads_only_def)

lemma uncompressed_block_writes_within:
  "writes_within st (lowzip_decode_uncompressed_block st)"
proof -
  obtain st1 lo where a: "lowzip_read_byte (lowzip_reset_bitstate st) = (st1, lo)"
    by (cases "lowzip_read_byte (lowzip_reset_bitstate st)")
  obtain st2 hi where b: "lowzip_read_byte st1 = (st2, hi)"
    by (cases "lowzip_read_byte st1")
  obtain st3 nlo where c: "lowzip_read_byte st2 = (st3, nlo)"
    by (cases "lowzip_read_byte st2")
  obtain st4 nhi where d: "lowzip_read_byte st3 = (st4, nhi)"
    by (cases "lowzip_read_byte st3")
  have "reads_only st st1"
    using reset_bitstate_reads_only [of st] read_byte_reads_only [of "lowzip_reset_bitstate st"] a
    by (auto intro: reads_only_trans)
  moreover have "reads_only st1 st2"
    using read_byte_reads_only [of st1] b by simp
  moreover have "reads_only st2 st3"
    using read_byte_reads_only [of st2] c by simp
  moreover have "reads_only st3 st4"
    using read_byte_reads_only [of st3] d by simp
  ultimately have "writes_within st st4"
    by (simp add: reads_only_def writes_within_def)
  then show ?thesis
    using a b c d uncompressed_copy_writes_within [of st4 "unat (lo + push_bit 8 hi)"]
    by (auto simp: lowzip_decode_uncompressed_block_def intro: writes_within_trans)
qed

lemma prepare_huffman_writes_within:
  "writes_within st (lowzip_prepare_huffman st code_lens out_huff)"
  by (auto simp: lowzip_prepare_huffman_def writes_within_def split: prod.splits)

lemma prepare_huffman_output:
  "output_buf (lowzip_prepare_huffman st code_lens out_huff) = output_buf st \<and>
   output_next (lowzip_prepare_huffman st code_lens out_huff) = output_next st"
  by (auto simp: lowzip_prepare_huffman_def split: prod.splits)

lemma read_codelen_lens_reads_only:
  "reads_only st (fst (read_codelen_lens st i nclen cl))"
proof (induction st i nclen cl rule: read_codelen_lens.induct)
  case (1 st i nclen cl)
  show ?case
  proof (cases "i < nclen")
    case True
    obtain st' v where r: "lowzip_read_bits st 3 = (st', v)"
      by (cases "lowzip_read_bits st 3")
    have "reads_only st st'"
      using read_bits_reads_only [of st 3] r by simp
    moreover note "1.IH" [OF True r [symmetric]]
    ultimately show ?thesis
      using True r by (subst read_codelen_lens.simps) (auto intro: reads_only_trans)
  next
    case False
    then show ?thesis
      by (subst read_codelen_lens.simps) simp
  qed
qed

lemma dynamic_code_len_symbol_reads_only:
  "reads_only st (fst (dynamic_code_len_symbol st i temp))"
proof -
  obtain st1 t where d: "lowzip_decode_huffman st 0 = (st1, t)"
    by (cases "lowzip_decode_huffman st 0")
  have r1: "reads_only st st1"
    using decode_huffman_reads_only [of st 0] d by simp
  have r2: "reads_only st (fst (lowzip_read_bits st1 n))" for n
    using r1 read_bits_reads_only [of st1 n] by (rule reads_only_trans)
  show ?thesis
    using d r1 r2 [of 2] r2 [of 3] r2 [of 7]
    by (auto simp: dynamic_code_len_symbol_def split: prod.splits)
qed

lemma dynamic_code_lens_reads_only:
  "reads_only st (fst (dynamic_code_lens st i n temp))"
proof (induction st i n temp rule: dynamic_code_lens.induct)
  case (1 st i n temp)
  show ?case
  proof (cases "i = n")
    case True
    then show ?thesis
      by (subst dynamic_code_lens.simps) simp
  next
    case ne: False
    obtain st1 rc where s: "dynamic_code_len_symbol st i temp = (st1, rc)"
      by (cases "dynamic_code_len_symbol st i temp")
    have r1: "reads_only st st1"
      using dynamic_code_len_symbol_reads_only [of st i temp] s by simp
    show ?thesis
    proof (cases rc)
      case None
      then show ?thesis
        using ne s r1 by (subst dynamic_code_lens.simps) simp
    next
      case (Some p)
      obtain rep_code rep_count where p: "p = (rep_code, rep_count)"
        by (cases p)
      obtain temp' i' failed where e: "rep_emit temp i n rep_code (unat rep_count) = (temp', i', failed)"
        by (cases "rep_emit temp i n rep_code (unat rep_count)")
      show ?thesis
      proof (cases failed)
        case True
        then show ?thesis
          using ne s Some p e r1 by (subst dynamic_code_lens.simps) simp
      next
        case False
        have "reads_only st1 (fst (dynamic_code_lens st1 i' n temp'))"
          using "1.IH" [OF ne s [symmetric] Some p [symmetric] e [symmetric] refl False] .
        then show ?thesis
          using ne s Some p e r1 False
          by (subst dynamic_code_lens.simps) (auto intro: reads_only_trans)
      qed
    qed
  qed
qed


lemma dynamic_block_writes_within:
  "writes_within st (lowzip_decode_dynamic_huffman_block st)"
proof -
  obtain st1 a where a: "lowzip_read_bits st 5 = (st1, a)"
    by (cases "lowzip_read_bits st 5")
  obtain st2 b where b: "lowzip_read_bits st1 5 = (st2, b)"
    by (cases "lowzip_read_bits st1 5")
  obtain st3 c where c: "lowzip_read_bits st2 4 = (st3, c)"
    by (cases "lowzip_read_bits st2 4")
  obtain st4 cl where d: "read_codelen_lens st3 0 (unat (c + 4)) (replicate 19 0) = (st4, cl)"
    by (cases "read_codelen_lens st3 0 (unat (c + 4)) (replicate 19 0)")
  define st5 where "st5 = lowzip_prepare_huffman st4 cl 0"
  obtain st6 temp i failed where
    e: "dynamic_code_lens st5 0 (unat (a + 257 + (b + 1))) (replicate 320 0) = (st6, temp, i, failed)"
    by (cases "dynamic_code_lens st5 0 (unat (a + 257 + (b + 1))) (replicate 320 0)")
  define st7 where "st7 = lowzip_prepare_huffman st6 (take (unat (a + 257)) temp) LOWZIP_SCRATCH_HUFF_LIT"
  define st8 where "st8 = lowzip_prepare_huffman st7 (take (unat (b + 1)) (drop (unat (a + 257)) temp))
      LOWZIP_SCRATCH_HUFF_DIST"
  have "writes_within st st1"
    using read_bits_reads_only [of st 5] a by (simp add: reads_only_writes_within)
  moreover have "writes_within st1 st2"
    using read_bits_reads_only [of st1 5] b by (simp add: reads_only_writes_within)
  moreover have "writes_within st2 st3"
    using read_bits_reads_only [of st2 4] c by (simp add: reads_only_writes_within)
  moreover have "writes_within st3 st4"
    using read_codelen_lens_reads_only [of st3 0 "unat (c + 4)" "replicate 19 0"] d
    by (simp add: reads_only_writes_within)
  ultimately have w4: "writes_within st st4"
    by (blast intro: writes_within_trans)
  have w5: "writes_within st st5"
    using w4 prepare_huffman_writes_within [of st4 cl 0]
    unfolding st5_def by (rule writes_within_trans)
  have "writes_within st5 st6"
    using dynamic_code_lens_reads_only [of st5 0 "unat (a + 257 + (b + 1))" "replicate 320 0"] e
    by (simp add: reads_only_writes_within)
  with w5 have w6: "writes_within st st6"
    by (rule writes_within_trans)
  have w7: "writes_within st st7"
    using w6 prepare_huffman_writes_within [of st6 "take (unat (a + 257)) temp" LOWZIP_SCRATCH_HUFF_LIT]
    unfolding st7_def by (rule writes_within_trans)
  have w8: "writes_within st st8"
    using w7 prepare_huffman_writes_within [of st7 "take (unat (b + 1)) (drop (unat (a + 257)) temp)"
        LOWZIP_SCRATCH_HUFF_DIST]
    unfolding st8_def by (rule writes_within_trans)
  have w9: "writes_within st (lowzip_decode_huffman_block_data st8 False)"
    using w8 block_data_writes_within [of st8 False] by (rule writes_within_trans)
  have "lowzip_decode_dynamic_huffman_block st =
      (if have_error st5 then st5
       else if failed then st6\<lparr>have_error := True\<rparr>
       else if have_error st7 then st7
       else if have_error st8 then st8
       else lowzip_decode_huffman_block_data st8 False)"
    using a b c d e
    by (simp add: lowzip_decode_dynamic_huffman_block_def Let_def st5_def st7_def st8_def)
  then show ?thesis
    using w5 w6 w7 w8 w9 by simp
qed

lemma decode_block_writes_within: "writes_within st (decode_block st btype)"
  by (simp add: decode_block_def uncompressed_block_writes_within dynamic_block_writes_within
      lowzip_decode_static_huffman_block_def block_data_writes_within)

lemma inflate_blocks_writes_within:
  assumes "lowzip_decode_inflate_blocks st = Some st'"
  shows "writes_within st st'"
proof (rule lowzip_decode_inflate_blocks.raw_induct [OF _ assms], goal_cases)
  case (1 blocks st st')
  note IH = "1" (1) and body = "1" (2)
  show ?case
  proof (cases "have_error st")
    case True
    then show ?thesis
      using body by simp
  next
    case False
    obtain st1 blockhdr where r: "lowzip_read_bits st 3 = (st1, blockhdr)"
      by (cases "lowzip_read_bits st 3")
    define st2 where "st2 = decode_block st1 (drop_bit 1 blockhdr)"
    have "writes_within st st1"
      using read_bits_reads_only [of st 3] r by (simp add: reads_only_writes_within)
    then have w: "writes_within st st2"
      using decode_block_writes_within [of st1 "drop_bit 1 blockhdr"]
      unfolding st2_def by (rule writes_within_trans)
    show ?thesis
    proof (cases "blockhdr AND 1 \<noteq> 0")
      case True
      then have "st' = st2"
        using body False r by (simp add: st2_def Let_def)
      then show ?thesis
        using w by simp
    next
      case f: False
      then have "blocks st2 = Some st'"
        using body False r by (simp add: st2_def Let_def)
      then have "writes_within st2 st'"
        by (rule IH)
      with w show ?thesis
        by (rule writes_within_trans)
    qed
  qed
qed

lemma inflate_raw_writes_within:
  "lowzip_inflate_raw st = Some st' \<Longrightarrow> writes_within st st'"
  using inflate_blocks_writes_within [of "lowzip_reset_bitstate st" st']
    reset_bitstate_reads_only [of st]
  by (auto simp: lowzip_inflate_raw_def dest: reads_only_writes_within intro: writes_within_trans)

lemma get_data_store_writes_within:
  "writes_within st (fst (get_data_store st offset offset_end))"
proof (induction st offset offset_end rule: get_data_store.induct)
  case (1 st offset offset_end)
  show ?case
  proof (cases "offset < offset_end \<and> \<not> have_error st")
    case True
    obtain st1 t where r: "lowzip_read1 st offset = (st1, t)"
      by (cases "lowzip_read1 st offset")
    have "writes_within st st1"
      using read1_reads_only [of st offset] r by (simp add: reads_only_writes_within)
    moreover have "writes_within st1 (lowzip_write_byte st1 (ucast t))"
      by (rule write_byte_writes_within)
    moreover have "writes_within (lowzip_write_byte st1 (ucast t))
        (fst (get_data_store (lowzip_write_byte st1 (ucast t)) (offset + 1) offset_end))"
      using "1.IH" [OF _ _ r [symmetric]] True by simp
    ultimately show ?thesis
      using True r by (subst get_data_store.simps) (auto intro: writes_within_trans)
  next
    case False
    then show ?thesis
      by (subst get_data_store.simps) auto
  qed
qed

lemma get_data_header_crc32_reads_only:
  "reads_only st (fst (get_data_header_crc32 st header_crc32 flag))"
proof -
  obtain st1 magic where r: "lowzip_read4 st (read_offset st) = (st1, magic)"
    by (cases "lowzip_read4 st (read_offset st)")
  have "reads_only st st1"
    using read4_reads_only [of st "read_offset st"] r by simp
  then have "reads_only st (fst (lowzip_read4 st1 x))" for x
    using read4_reads_only [of st1 x] by (rule reads_only_trans)
  then show ?thesis
    using r by (simp add: get_data_header_crc32_def)
qed

lemma get_data_validate_writes_within:
  "writes_within st (get_data_validate st header_crc32 header_uncompressed_size flag)"
  using get_data_header_crc32_reads_only [of st header_crc32 flag]
  by (auto simp: get_data_validate_def Let_def split: prod.splits
      dest: reads_only_writes_within)

lemma get_data_writes_within:
  "lowzip_get_data st = Some st' \<Longrightarrow> writes_within st st'"
proof -
  assume g: "lowzip_get_data st = Some st'"
  define st0 where "st0 = st\<lparr>have_error := False\<rparr>"
  have w0: "writes_within st st0"
    by (simp add: st0_def)
  have "writes_within st0 st'"
  proof (cases "compression_method (file_entry st) = LOWZIP_COMPRESSION_STORE")
    case True
    obtain st1 failed where s: "get_data_store st0 (data_offset (file_entry st))
        (data_offset (file_entry st) + uncompressed_size (file_entry st)) = (st1, failed)"
      by (cases "get_data_store st0 (data_offset (file_entry st))
        (data_offset (file_entry st) + uncompressed_size (file_entry st))")
    have w1: "writes_within st0 st1"
      using get_data_store_writes_within [of st0 "data_offset (file_entry st)"
          "data_offset (file_entry st) + uncompressed_size (file_entry st)"] s by simp
    have "st' = st1\<lparr>have_error := True\<rparr> \<or>
        st' = get_data_validate st1 (crc32 (file_entry st)) (uncompressed_size (file_entry st))
          (have_data_descriptor (file_entry st))"
      using g True s by (auto simp: lowzip_get_data_def Let_def st0_def split: if_splits)
    then show ?thesis
      using w1 get_data_validate_writes_within [of st1]
      by (auto intro: writes_within_trans)
  next
    case ns: False
    show ?thesis
    proof (cases "compression_method (file_entry st) = LOWZIP_COMPRESSION_DEFLATE")
      case True
      obtain st1 where i: "lowzip_inflate_raw (st0\<lparr>read_offset := data_offset (file_entry st)\<rparr>) = Some st1"
        and r: "st' = get_data_validate st1 (crc32 (file_entry st)) (uncompressed_size (file_entry st))
          (have_data_descriptor (file_entry st))"
        using g True ns by (auto simp: lowzip_get_data_def Let_def st0_def split: option.splits)
      have "writes_within (st0\<lparr>read_offset := data_offset (file_entry st)\<rparr>) st1"
        using i by (rule inflate_raw_writes_within)
      then have "writes_within st0 st1"
        by (auto simp: writes_within_def)
      then show ?thesis
        using r get_data_validate_writes_within [of st1] by (auto intro: writes_within_trans)
    next
      case False
      then show ?thesis
        using g ns by (auto simp: lowzip_get_data_def Let_def st0_def writes_within_def)
    qed
  qed
  with w0 show ?thesis
    by (rule writes_within_trans)
qed


lemma reads_only_have_error [simp]:
  "reads_only a (b\<lparr>have_error := e\<rparr>) = reads_only a b"
  by (simp add: reads_only_def)

lemma init_archive_scan_reads_only: "reads_only st (init_archive_scan st offset)"
proof (induction st offset rule: init_archive_scan.induct)
  case (1 st offset)
  show ?case
  proof (cases "offset \<ge> sint (zip_length st) - LOWZIP_MAX_EOCDIR_LENGTH \<and> \<not> have_error st")
    case False
    then show ?thesis
      by (subst init_archive_scan.simps) auto
  next
    case True
    then have ge: "offset \<ge> sint (zip_length st) - LOWZIP_MAX_EOCDIR_LENGTH" and ne: "\<not> have_error st"
      by simp_all
    obtain st1 magic where a: "lowzip_read4 st (of_int offset) = (st1, magic)"
      by (cases "lowzip_read4 st (of_int offset)")
    have r1: "reads_only st st1"
      using read4_reads_only [of st "of_int offset"] a by simp
    show ?thesis
    proof (cases "magic \<noteq> 0x06054b50")
      case m: True
      have "reads_only st1 (init_archive_scan st1 (offset - 1))"
        using "1.IH" (1) [OF ge ne a [symmetric] m] .
      with r1 have "reads_only st (init_archive_scan st1 (offset - 1))"
        by (rule reads_only_trans)
      then show ?thesis
        using ge ne a m by (subst init_archive_scan.simps) simp
    next
      case m: False
      obtain st2 comment_length where b: "lowzip_read2 st1 (of_int (offset + 20)) = (st2, comment_length)"
        by (cases "lowzip_read2 st1 (of_int (offset + 20))")
      have "reads_only st1 st2"
        using read2_reads_only [of st1 "of_int (offset + 20)"] b by simp
      with r1 have r2: "reads_only st st2"
        by (rule reads_only_trans)
      show ?thesis
      proof (cases "of_int (offset + LOWZIP_MIN_EOCDIR_LENGTH) + comment_length \<noteq> zip_length st2")
        case c: True
        have "reads_only st2 (init_archive_scan st2 (offset - 1))"
          using "1.IH" (2) [OF ge ne a [symmetric] m b [symmetric] c] .
        with r2 have "reads_only st (init_archive_scan st2 (offset - 1))"
          by (rule reads_only_trans)
        then show ?thesis
          using ge ne a m b c by (subst init_archive_scan.simps) simp
      next
        case c: False
        obtain st3 cdir where d: "lowzip_read4 st2 (of_int (offset + 16)) = (st3, cdir)"
          by (cases "lowzip_read4 st2 (of_int (offset + 16))")
        have "reads_only st2 st3"
          using read4_reads_only [of st2 "of_int (offset + 16)"] d by simp
        with r2 have "reads_only st st3"
          by (rule reads_only_trans)
        then have "reads_only st (st3\<lparr>central_dir_offset := cdir\<rparr>)"
          by (simp add: reads_only_def)
        then show ?thesis
          using ge ne a m b c d by (subst init_archive_scan.simps) simp
      qed
    qed
  qed
qed

lemma init_archive_reads_only: "reads_only st (lowzip_init_archive st)"
  using init_archive_scan_reads_only [of "st\<lparr>have_error := False\<rparr>"]
  by (simp add: lowzip_init_archive_def Let_def reads_only_def)


lemma read4_reads_onlyD:
  "lowzip_read4 st offset = (st', v) \<Longrightarrow> reads_only a st \<Longrightarrow> reads_only a st'"
  using read4_reads_only [of st offset] by (auto intro: reads_only_trans)

lemma read2_reads_onlyD:
  "lowzip_read2 st offset = (st', v) \<Longrightarrow> reads_only a st \<Longrightarrow> reads_only a st'"
  using read2_reads_only [of st offset] by (auto intro: reads_only_trans)

lemma read1_reads_onlyD:
  "lowzip_read1 st offset = (st', v) \<Longrightarrow> reads_only a st \<Longrightarrow> reads_only a st'"
  using read1_reads_only [of st offset] by (auto intro: reads_only_trans)

lemma locate_compare_name_reads_only:
  "reads_only st (fst (locate_compare_name st offset i filename_length name))"
proof (induction st offset i filename_length name rule: locate_compare_name.induct)
  case (1 st offset i filename_length name)
  show ?case
  proof (cases "i < filename_length")
    case True
    obtain st' t where r: "lowzip_read1 st (offset + LOWZIP_MIN_CDIRFILE_LENGTH + of_nat i) = (st', t)"
      by (cases "lowzip_read1 st (offset + LOWZIP_MIN_CDIRFILE_LENGTH + of_nat i)")
    have r1: "reads_only st st'"
      using read1_reads_onlyD [OF r reads_only_refl] .
    show ?thesis
    proof (cases "t \<noteq> ucast (name ! i)")
      case ne: True
      then show ?thesis
        using True r r1 by (subst locate_compare_name.simps) simp
    next
      case eq: False
      have "reads_only st' (fst (locate_compare_name st' offset (i + 1) filename_length name))"
        using "1.IH" [OF True r [symmetric] eq] .
      with r1 have "reads_only st (fst (locate_compare_name st' offset (i + 1) filename_length name))"
        by (rule reads_only_trans)
      then show ?thesis
        using True r eq by (subst locate_compare_name.simps) simp
    qed
  next
    case False
    then show ?thesis
      by (subst locate_compare_name.simps) simp
  qed
qed

lemma locate_match_reads_only:
  "reads_only st (fst (locate_match st offset idx name filename_length))"
proof (cases name)
  case None
  then show ?thesis
    by (simp add: locate_match_def)
next
  case (Some nm)
  then show ?thesis
    using locate_compare_name_reads_only [of st offset 0 "unat filename_length" nm]
    by (auto simp: locate_match_def split: prod.splits)
qed

lemma locate_copy_name_reads_only:
  "reads_only st (fst (locate_copy_name st offset i n fname))"
proof (induction st offset i n fname rule: locate_copy_name.induct)
  case (1 st offset i n fname)
  show ?case
  proof (cases "i < n")
    case True
    obtain st' t where r: "lowzip_read1 st (offset + LOWZIP_MIN_CDIRFILE_LENGTH + of_nat i) = (st', t)"
      by (cases "lowzip_read1 st (offset + LOWZIP_MIN_CDIRFILE_LENGTH + of_nat i)")
    have "reads_only st st'"
      using read1_reads_onlyD [OF r reads_only_refl] .
    moreover note "1.IH" [OF True r [symmetric]]
    ultimately show ?thesis
      using True r by (subst locate_copy_name.simps) (auto intro: reads_only_trans)
  next
    case False
    then show ?thesis
      by (subst locate_copy_name.simps) simp
  qed
qed

lemma locate_found_reads_only:
  "reads_only st (fst (locate_found st offset filename_length))"
proof -
  obtain st1 lhdr where a1: "lowzip_read4 st (offset + 42) = (st1, lhdr)"
    by (cases "lowzip_read4 st (offset + 42)")
  obtain st2 t where a2: "lowzip_read4 st1 lhdr = (st2, t)"
    by (cases "lowzip_read4 st1 lhdr")
  obtain st3 flags where a3: "lowzip_read2 st2 (lhdr + 6) = (st3, flags)"
    by (cases "lowzip_read2 st2 (lhdr + 6)")
  obtain st4 cmethod where a4: "lowzip_read2 st3 (lhdr + 8) = (st4, cmethod)"
    by (cases "lowzip_read2 st3 (lhdr + 8)")
  obtain st5 crc where a5: "lowzip_read4 st4 (lhdr + 14) = (st5, crc)"
    by (cases "lowzip_read4 st4 (lhdr + 14)")
  obtain st6 csize where a6: "lowzip_read4 st5 (lhdr + 18) = (st6, csize)"
    by (cases "lowzip_read4 st5 (lhdr + 18)")
  obtain st7 usize where a7: "lowzip_read4 st6 (lhdr + 22) = (st7, usize)"
    by (cases "lowzip_read4 st6 (lhdr + 22)")
  obtain st8 t1 where a8: "lowzip_read2 st7 (lhdr + 26) = (st8, t1)"
    by (cases "lowzip_read2 st7 (lhdr + 26)")
  obtain st9 t2 where a9: "lowzip_read2 st8 (lhdr + 28) = (st9, t2)"
    by (cases "lowzip_read2 st8 (lhdr + 28)")
  define n where "n = (if unat filename_length > 255 then 255 else unat filename_length)"
  obtain st10 fname where a10: "locate_copy_name st9 offset 0 n [] = (st10, fname)"
    by (cases "locate_copy_name st9 offset 0 n []")
  have r2: "reads_only st st2"
    using read4_reads_onlyD [OF a2 read4_reads_onlyD [OF a1 reads_only_refl]] .
  have "reads_only st st9"
    using read2_reads_onlyD [OF a9 read2_reads_onlyD [OF a8 read4_reads_onlyD [OF a7
      read4_reads_onlyD [OF a6 read4_reads_onlyD [OF a5 read2_reads_onlyD [OF a4
      read2_reads_onlyD [OF a3 r2]]]]]]] .
  moreover have "reads_only st9 st10"
    using locate_copy_name_reads_only [of st9 offset 0 n "[]"] a10 by simp
  ultimately have "reads_only st st10"
    by (rule reads_only_trans)
  then have "reads_only st (st10\<lparr>file_entry := fi\<rparr>)" for fi
    by (simp add: reads_only_def)
  then show ?thesis
    using a1 a2 a3 a4 a5 a6 a7 a8 a9 a10 r2
    by (simp add: locate_found_def Let_def n_def)
qed

lemma locate_file_loop_reads_only:
  assumes "locate_file_loop st offset idx name = Some r"
  shows "reads_only st (fst r)"
proof (rule locate_file_loop.raw_induct [where P = "\<lambda>st offset idx name r. reads_only st (fst r)",
      OF _ assms], goal_cases)
  case (1 loop st offset idx name r)
  note IH = "1" (1) and body = "1" (2)
  obtain st1 magic where a1: "lowzip_read4 st offset = (st1, magic)"
    by (cases "lowzip_read4 st offset")
  have r1: "reads_only st st1"
    using read4_reads_onlyD [OF a1 reads_only_refl] .
  show ?case
  proof (cases "magic \<noteq> 0x02014b50")
    case True
    then show ?thesis
      using body a1 r1 by auto
  next
    case m: False
    obtain st2 filename_length where a2: "lowzip_read2 st1 (offset + 28) = (st2, filename_length)"
      by (cases "lowzip_read2 st1 (offset + 28)")
    obtain st3 found where a3: "locate_match st2 offset idx name filename_length = (st3, found)"
      by (cases "locate_match st2 offset idx name filename_length")
    have "reads_only st st2"
      using read2_reads_onlyD [OF a2 r1] .
    then have r3: "reads_only st st3"
      using locate_match_reads_only [of st2 offset idx name filename_length] a3
      by (auto intro: reads_only_trans)
    show ?thesis
    proof (cases found)
      case True
      then have "r = locate_found st3 offset filename_length"
        using body a1 m a2 a3 by simp
      then show ?thesis
        using r3 locate_found_reads_only [of st3 offset filename_length]
        by (auto intro: reads_only_trans)
    next
      case False
      obtain st4 extra_length where a4: "lowzip_read2 st3 (offset + 30) = (st4, extra_length)"
        by (cases "lowzip_read2 st3 (offset + 30)")
      obtain st5 comment_length where a5: "lowzip_read2 st4 (offset + 32) = (st5, comment_length)"
        by (cases "lowzip_read2 st4 (offset + 32)")
      have r5: "reads_only st st5"
        using read2_reads_onlyD [OF a5 read2_reads_onlyD [OF a4 r3]] .
      have "loop st5 (offset + (LOWZIP_MIN_CDIRFILE_LENGTH + (filename_length + extra_length + comment_length)))
          (if name = None then idx - 1 else idx) name = Some r"
        using body a1 m a2 a3 False a4 a5 by simp
      then have "reads_only st5 (fst r)"
        by (rule IH)
      with r5 show ?thesis
        by (rule reads_only_trans)
    qed
  qed
qed

lemma locate_file_reads_only:
  "lowzip_locate_file st idx name = Some r \<Longrightarrow> reads_only st (fst r)"
  using locate_file_loop_reads_only [of "st\<lparr>have_error := False\<rparr>" "central_dir_offset st" idx name r]
  by (simp add: lowzip_locate_file_def Let_def reads_only_def)

section \<open>States of the test program\<close>

text \<open>
  The read callback of \<open>test_lowzip.c\<close>, \<open>my_read\<close>, over the contents of the input file:
  the byte at the offset, or \<open>0x100\<close> for an offset at or after the end of the input.
\<close>

definition my_read :: "u8 list \<Rightarrow> u32 \<Rightarrow> u32" where
  "my_read input offset =
     (if unat offset < length input then ucast (input ! unat offset) else 0x100)"

text \<open>
  The state as the test program sets it up: cleared by \<open>memset\<close>, with the callback and the
  length of the input, and with an output window of \<open>out_size\<close> bytes whose cursor is at the
  start (the window is allocated memory; its bytes are zeros here).
\<close>

definition test_state :: "u8 list \<Rightarrow> nat \<Rightarrow> lowzip_state" where
  "test_state input out_size =
     \<lparr>read_callback = my_read input, zip_length = of_nat (length input),
      output_buf = replicate out_size 0, output_next = 0, central_dir_offset = 0,
      have_error = False, read_offset = 0, curr = 0, have_bits = 0,
      scratch = replicate 510 0,
      file_entry = \<lparr>compression_method = 0, crc32 = 0, compressed_size = 0,
                     uncompressed_size = 0, data_offset = 0, filename = [],
                     have_data_descriptor = 0\<rparr>\<rparr>"

text \<open>What a caller reads after an operation: the bytes written so far.\<close>

definition output_written :: "lowzip_state \<Rightarrow> u8 list" where
  "output_written st = take (output_next st) (output_buf st)"

text \<open>
  An input that holds the single byte \<open>A\<close>, located as a stored entry of one byte with the
  CRC32 of that byte.
\<close>

definition stored_A :: lowzip_state where
  "stored_A = (test_state [0x41] 1)
     \<lparr>file_entry := \<lparr>compression_method = 0, crc32 = 0xd3d99e8b, compressed_size = 1,
                       uncompressed_size = 1, data_offset = 0, filename = [0x61, 0],
                       have_data_descriptor = 0\<rparr>\<rparr>"

section \<open>The error flag at the entry of the public operations\<close>

text \<open>
  Claim C9. Each of \<open>lowzip_init_archive\<close>, \<open>lowzip_locate_file\<close> and \<open>lowzip_get_data\<close> first
  assigns 0 to \<open>have_error\<close>: whatever the flag was before the call, the operation does what
  it does from the state with the flag cleared, so an error left by an earlier operation
  neither makes it fail fast nor shows in its result.
\<close>

theorem public_operations_reset_have_error:
  "lowzip_init_archive (st\<lparr>have_error := e\<rparr>) = lowzip_init_archive (st\<lparr>have_error := False\<rparr>) \<and>
   lowzip_locate_file (st\<lparr>have_error := e\<rparr>) idx name =
     lowzip_locate_file (st\<lparr>have_error := False\<rparr>) idx name \<and>
   lowzip_get_data (st\<lparr>have_error := e\<rparr>) = lowzip_get_data (st\<lparr>have_error := False\<rparr>)"
  by (simp add: lowzip_init_archive_def lowzip_locate_file_def lowzip_get_data_def)

text \<open>With the flag set before the call, the stored byte is still extracted without error.\<close>

theorem public_operations_reset_have_error_witness:
  "map_option (\<lambda>st. (have_error st, output_written st))
     (lowzip_get_data (stored_A\<lparr>have_error := True\<rparr>)) = Some (False, [0x41])"
proof -
  have "lowzip_get_data (stored_A\<lparr>have_error := True\<rparr>) =
        lowzip_get_data (stored_A\<lparr>have_error := False\<rparr>)"
    using public_operations_reset_have_error [where st = stored_A and e = True] by simp
  moreover have "map_option (\<lambda>st. (have_error st, output_written st))
     (lowzip_get_data (stored_A\<lparr>have_error := False\<rparr>)) = Some (False, [0x41])"
    by code_simp
  ultimately show ?thesis
    by simp
qed

section \<open>The output cursor stays inside the output window\<close>

text \<open>
  Claim C2. For every state, whatever the callback returns (so also for truncated or
  hostile input, for which it returns the out of bounds value any number of times), the
  operations keep \<open>output_next \<le> output_end\<close>: \<open>lowzip_write_byte\<close> keeps it, and at the end
  of the window it writes nothing and sets \<open>have_error\<close>; the back-reference branch, whose
  copy loop writes without \<open>lowzip_write_byte\<close>, keeps it because the length was compared
  with the space left before the loop; and so do the block data loop, \<open>lowzip_inflate_raw\<close>
  and the three ZIP operations, none of which changes the size of the window.
\<close>

theorem output_next_stays_within_output_end:
  assumes "output_next st \<le> length (output_buf st)"
  shows "output_next (lowzip_write_byte st ch) \<le> length (output_buf (lowzip_write_byte st ch)) \<and>
    (length (output_buf st) \<le> output_next st \<longrightarrow>
       lowzip_write_byte st ch = st\<lparr>have_error := True\<rparr>) \<and>
    output_next (fst (block_data_backref st static_huffman t))
      \<le> length (output_buf (fst (block_data_backref st static_huffman t))) \<and>
    output_next (lowzip_decode_huffman_block_data st static_huffman)
      \<le> length (output_buf (lowzip_decode_huffman_block_data st static_huffman)) \<and>
    (\<forall>st'. lowzip_inflate_raw st = Some st' \<longrightarrow>
       output_next st' \<le> length (output_buf st') \<and>
       length (output_buf st') = length (output_buf st)) \<and>
    (\<forall>st'. lowzip_get_data st = Some st' \<longrightarrow>
       output_next st' \<le> length (output_buf st') \<and>
       length (output_buf st') = length (output_buf st)) \<and>
    output_next (lowzip_init_archive st) \<le> length (output_buf (lowzip_init_archive st)) \<and>
    (\<forall>r. lowzip_locate_file st idx name = Some r \<longrightarrow>
       output_next (fst r) \<le> length (output_buf (fst r)))"
proof -
  have a: "output_next (lowzip_write_byte st ch) \<le> length (output_buf (lowzip_write_byte st ch))"
    using assms write_byte_writes_within [of st ch] by (simp add: writes_within_def)
  have b: "length (output_buf st) \<le> output_next st \<longrightarrow>
       lowzip_write_byte st ch = st\<lparr>have_error := True\<rparr>"
    by (simp add: lowzip_write_byte_def)
  have c: "output_next (fst (block_data_backref st static_huffman t))
      \<le> length (output_buf (fst (block_data_backref st static_huffman t)))"
    using assms block_data_backref_writes_within [of st static_huffman t]
    by (simp add: writes_within_def)
  have d: "output_next (lowzip_decode_huffman_block_data st static_huffman)
      \<le> length (output_buf (lowzip_decode_huffman_block_data st static_huffman))"
    using assms block_data_writes_within [of st static_huffman]
    by (simp add: writes_within_def)
  have e: "\<forall>st'. lowzip_inflate_raw st = Some st' \<longrightarrow>
       output_next st' \<le> length (output_buf st') \<and>
       length (output_buf st') = length (output_buf st)"
  proof (intro allI impI)
    fix st'
    assume "lowzip_inflate_raw st = Some st'"
    then have "writes_within st st'"
      by (rule inflate_raw_writes_within)
    then show "output_next st' \<le> length (output_buf st') \<and>
       length (output_buf st') = length (output_buf st)"
      using assms by (simp add: writes_within_def)
  qed
  have f: "\<forall>st'. lowzip_get_data st = Some st' \<longrightarrow>
       output_next st' \<le> length (output_buf st') \<and>
       length (output_buf st') = length (output_buf st)"
  proof (intro allI impI)
    fix st'
    assume "lowzip_get_data st = Some st'"
    then have "writes_within st st'"
      by (rule get_data_writes_within)
    then show "output_next st' \<le> length (output_buf st') \<and>
       length (output_buf st') = length (output_buf st)"
      using assms by (simp add: writes_within_def)
  qed
  have g: "output_next (lowzip_init_archive st) \<le> length (output_buf (lowzip_init_archive st))"
    using assms init_archive_reads_only [of st] by (simp add: reads_only_def)
  have h: "\<forall>r. lowzip_locate_file st idx name = Some r \<longrightarrow>
       output_next (fst r) \<le> length (output_buf (fst r))"
  proof (intro allI impI)
    fix r
    assume "lowzip_locate_file st idx name = Some r"
    then have "reads_only st (fst r)"
      by (rule locate_file_reads_only)
    then show "output_next (fst r) \<le> length (output_buf (fst r))"
      using assms by (simp add: reads_only_def)
  qed
  from a b c d e f g h show ?thesis
    by blast
qed

text \<open>
  A static Huffman block that emits \<open>A\<close>, \<open>B\<close> and then a back-reference of length 5 and
  distance 2, decoded into a window of 6 bytes: the back-reference does not fit, the cursor
  stays at 2 and the error flag is set.
\<close>

definition abab_stream :: "u8 list" where
  "abab_stream = [115, 116, 2, 67, 0]"

theorem output_next_stays_within_output_end_witness:
  "output_next (test_state abab_stream 6) \<le> length (output_buf (test_state abab_stream 6)) \<and>
   (\<exists>st'. lowzip_inflate_raw (test_state abab_stream 6) = Some st' \<and>
      output_next st' = 2 \<and> have_error st' \<and>
      output_next st' \<le> length (output_buf st') \<and> length (output_buf st') = 6)"
proof -
  have inv: "output_next (test_state abab_stream 6) \<le> length (output_buf (test_state abab_stream 6))"
    by code_simp
  have "map_option (\<lambda>st. (output_next st, have_error st))
      (lowzip_inflate_raw (test_state abab_stream 6)) = Some (2, True)"
    by code_simp
  then obtain st' where run: "lowzip_inflate_raw (test_state abab_stream 6) = Some st'"
    and res: "output_next st' = 2" "have_error st'"
    by auto
  have "length (output_buf (test_state abab_stream 6)) = 6"
    by code_simp
  with output_next_stays_within_output_end [OF inv, where ch = 0 and static_huffman = True
      and t = 0 and idx = 0 and name = None] run
  have "output_next st' \<le> length (output_buf st') \<and> length (output_buf st') = 6"
    by simp
  with inv run res show ?thesis
    by blast
qed

section \<open>Little-endian fields\<close>

text \<open>
  The value of a little-endian field of 4 or 2 bytes at an offset, written out from the
  bytes the callback returns, and whether the \<open>n\<close> bytes from an offset on can be read
  (no read is out of bounds). The read helpers return exactly these values, or 0 with the
  error flag set when a byte cannot be read.
\<close>

definition le32 :: "(u32 \<Rightarrow> u32) \<Rightarrow> u32 \<Rightarrow> u32" where
  "le32 cb offset =
     cb offset + push_bit 8 (cb (offset + 1)) + push_bit 16 (cb (offset + 2)) +
     push_bit 24 (cb (offset + 3))"

definition le16 :: "(u32 \<Rightarrow> u32) \<Rightarrow> u32 \<Rightarrow> u32" where
  "le16 cb offset = cb offset + push_bit 8 (cb (offset + 1))"

definition readable :: "(u32 \<Rightarrow> u32) \<Rightarrow> u32 \<Rightarrow> nat \<Rightarrow> bool" where
  "readable cb offset n = list_all (\<lambda>k. cb (offset + of_nat k) AND 0x100 = 0) [0..<n]"

lemma read4_eq:
  "lowzip_read4 st offset =
     (if readable (read_callback st) offset 4 then (st, le32 (read_callback st) offset)
      else (st\<lparr>have_error := True\<rparr>, 0))"
  by (simp add: lowzip_read4_def lowzip_read_little_endian_def readable_def le32_def
      eval_nat_numeral upt_rec Let_def push_bit_add add.commute add.left_commute)

lemma read2_eq:
  "lowzip_read2 st offset =
     (if readable (read_callback st) offset 2 then (st, le16 (read_callback st) offset)
      else (st\<lparr>have_error := True\<rparr>, 0))"
  by (simp add: lowzip_read2_def lowzip_read_little_endian_def readable_def le16_def
      eval_nat_numeral upt_rec Let_def push_bit_add add.commute add.left_commute)

lemma read1_eq:
  "lowzip_read1 st offset =
     (if read_callback st offset AND 0x100 = 0 then (st, read_callback st offset)
      else (st\<lparr>have_error := True\<rparr>, 0))"
  by (simp add: lowzip_read1_def lowzip_read_little_endian_def Let_def)


section \<open>The checks at the end of \<open>lowzip_get_data\<close>\<close>

text \<open>
  The CRC32 of the trailing data descriptor at an offset, in the words of the
  specification: the record is either the signature \<open>0x08074b50\<close> followed by the CRC, or
  starts with the CRC directly. The authoritative CRC of an entry is that value when the
  entry's data-descriptor flag is set, and the local header's CRC otherwise.
\<close>

definition data_descriptor_crc32 :: "(u32 \<Rightarrow> u32) \<Rightarrow> u32 \<Rightarrow> u32" where
  "data_descriptor_crc32 cb offset =
     (if le32 cb offset = 0x08074b50 then le32 cb (offset + 4) else le32 cb offset)"

definition authoritative_crc32 :: "lowzip_file \<Rightarrow> (u32 \<Rightarrow> u32) \<Rightarrow> u32 \<Rightarrow> u32" where
  "authoritative_crc32 fi cb offset =
     (if have_data_descriptor fi \<noteq> 0 then data_descriptor_crc32 cb offset else crc32 fi)"

lemma get_data_header_crc32_eq:
  "\<not> have_error (fst (get_data_header_crc32 st header_crc32 flag)) \<Longrightarrow>
   get_data_header_crc32 st header_crc32 flag =
     (st, if flag \<noteq> 0 then data_descriptor_crc32 (read_callback st) (read_offset st)
          else header_crc32) \<and>
   (flag \<noteq> 0 \<longrightarrow> readable (read_callback st) (read_offset st) 4)"
  by (auto simp: get_data_header_crc32_def read4_eq data_descriptor_crc32_def split: if_splits)

lemma get_data_validate_success:
  assumes "\<not> have_error (get_data_validate st header_crc32 header_uncompressed_size flag)"
  shows "get_data_validate st header_crc32 header_uncompressed_size flag = st \<and>
    int (output_next st) = uint header_uncompressed_size \<and>
    lowzip_zip_crc32 (output_written st) =
      (if flag \<noteq> 0 then data_descriptor_crc32 (read_callback st) (read_offset st)
       else header_crc32) \<and>
    (flag \<noteq> 0 \<longrightarrow> readable (read_callback st) (read_offset st) 4)"
proof -
  obtain st1 c where h: "get_data_header_crc32 st header_crc32 flag = (st1, c)"
    by (cases "get_data_header_crc32 st header_crc32 flag")
  have ne: "\<not> have_error st" and len: "int (output_next st) = uint header_uncompressed_size"
    and crc: "lowzip_zip_crc32 (take (output_next st) (output_buf st)) = c"
    and ne1: "\<not> have_error st1" and res: "get_data_validate st header_crc32 header_uncompressed_size flag = st1"
    using assms h by (auto simp: get_data_validate_def Let_def split: if_splits)
  from get_data_header_crc32_eq [of st header_crc32 flag] h ne1
  have "st1 = st" and "c = (if flag \<noteq> 0 then data_descriptor_crc32 (read_callback st) (read_offset st)
          else header_crc32)" and "flag \<noteq> 0 \<longrightarrow> readable (read_callback st) (read_offset st) 4"
    by simp_all
  then show ?thesis
    using len crc res by (simp add: output_written_def)
qed

lemma get_data_result:
  assumes "lowzip_get_data st = Some st'" and "\<not> have_error st'"
  obtains st1 where "writes_within st st1"
    and "st' = get_data_validate st1 (crc32 (file_entry st)) (uncompressed_size (file_entry st))
          (have_data_descriptor (file_entry st))"
proof -
  define st0 where "st0 = st\<lparr>have_error := False\<rparr>"
  have w0: "writes_within st st0"
    by (simp add: st0_def)
  show ?thesis
  proof (cases "compression_method (file_entry st) = LOWZIP_COMPRESSION_STORE")
    case True
    obtain st1 failed where s: "get_data_store st0 (data_offset (file_entry st))
        (data_offset (file_entry st) + uncompressed_size (file_entry st)) = (st1, failed)"
      by (cases "get_data_store st0 (data_offset (file_entry st))
        (data_offset (file_entry st) + uncompressed_size (file_entry st))")
    have "writes_within st0 st1"
      using get_data_store_writes_within [of st0 "data_offset (file_entry st)"
          "data_offset (file_entry st) + uncompressed_size (file_entry st)"] s by simp
    with w0 have "writes_within st st1"
      by (rule writes_within_trans)
    moreover have "st' = get_data_validate st1 (crc32 (file_entry st)) (uncompressed_size (file_entry st))
          (have_data_descriptor (file_entry st))"
      using assms True s by (auto simp: lowzip_get_data_def Let_def st0_def split: if_splits)
    ultimately show ?thesis
      using that by blast
  next
    case ns: False
    then have d: "compression_method (file_entry st) = LOWZIP_COMPRESSION_DEFLATE"
      using assms by (auto simp: lowzip_get_data_def Let_def split: if_splits)
    obtain st1 where i: "lowzip_inflate_raw (st0\<lparr>read_offset := data_offset (file_entry st)\<rparr>) = Some st1"
      and r: "st' = get_data_validate st1 (crc32 (file_entry st)) (uncompressed_size (file_entry st))
          (have_data_descriptor (file_entry st))"
      using assms d ns by (auto simp: lowzip_get_data_def Let_def st0_def split: option.splits)
    have "writes_within (st0\<lparr>read_offset := data_offset (file_entry st)\<rparr>) st1"
      using i by (rule inflate_raw_writes_within)
    then have "writes_within st st1"
      by (auto simp: writes_within_def st0_def)
    then show ?thesis
      using that r by blast
  qed
qed

text \<open>
  Claim C1. Whenever \<open>lowzip_get_data\<close> returns without \<open>have_error\<close>, the number of bytes
  between \<open>output_start\<close> and \<open>output_next\<close> is the entry's \<open>uncompressed_size\<close>, and the
  CRC32 of these bytes (\<open>lowzip_zip_crc32\<close>: polynomial \<open>0xedb88320\<close>, initial value and
  final exclusive-or \<open>0xffffffff\<close>) is the authoritative CRC: the local header's, or for an
  entry with the data-descriptor flag the one read from the record at \<open>read_offset\<close>, all
  of whose bytes were read inside the input. In every other case it returns with
  \<open>have_error\<close> set.
\<close>

theorem get_data_success_length_and_crc32:
  assumes "lowzip_get_data st = Some st'" and "\<not> have_error st'"
  shows "int (output_next st') = uint (uncompressed_size (file_entry st)) \<and>
    (output_next st \<le> length (output_buf st) \<longrightarrow>
       length (output_written st') = unat (uncompressed_size (file_entry st))) \<and>
    lowzip_zip_crc32 (output_written st') =
      authoritative_crc32 (file_entry st) (read_callback st) (read_offset st') \<and>
    (have_data_descriptor (file_entry st) \<noteq> 0 \<longrightarrow>
       readable (read_callback st) (read_offset st') 4)"
proof -
  from assms obtain st1 where w: "writes_within st st1"
    and r: "st' = get_data_validate st1 (crc32 (file_entry st)) (uncompressed_size (file_entry st))
          (have_data_descriptor (file_entry st))"
    by (rule get_data_result)
  from get_data_validate_success [of st1 "crc32 (file_entry st)" "uncompressed_size (file_entry st)"
      "have_data_descriptor (file_entry st)"] assms(2) r
  have eq: "st' = st1" and len: "int (output_next st1) = uint (uncompressed_size (file_entry st))"
    and crc: "lowzip_zip_crc32 (output_written st1) =
      (if have_data_descriptor (file_entry st) \<noteq> 0
       then data_descriptor_crc32 (read_callback st1) (read_offset st1)
       else crc32 (file_entry st))"
    and rd: "have_data_descriptor (file_entry st) \<noteq> 0 \<longrightarrow> readable (read_callback st1) (read_offset st1) 4"
    by simp_all
  have cb: "read_callback st1 = read_callback st"
    using w by (simp add: writes_within_def)
  have "output_next st \<le> length (output_buf st) \<longrightarrow>
       length (output_written st1) = unat (uncompressed_size (file_entry st))"
  proof
    assume "output_next st \<le> length (output_buf st)"
    then have "output_next st1 \<le> length (output_buf st1)"
      using w by (simp add: writes_within_def)
    then have "length (output_written st1) = output_next st1"
      by (simp add: output_written_def)
    then show "length (output_written st1) = unat (uncompressed_size (file_entry st))"
      using len uint_nat [of "uncompressed_size (file_entry st)"] by linarith
  qed
  then show ?thesis
    using eq len crc rd cb by (simp add: authoritative_crc32_def)
qed


text \<open>
  A deflated entry with a data descriptor: the static Huffman block of \<open>abab_stream\<close>,
  followed by a descriptor with signature that carries the CRC32 of \<open>ABABABA\<close>.
\<close>

definition deflated_abab :: lowzip_state where
  "deflated_abab =
     (test_state (abab_stream @ [0x50, 0x4b, 0x07, 0x08, 0xed, 0x50, 0xc2, 0xdb, 5, 0, 0, 0, 7, 0, 0, 0]) 7)
     \<lparr>file_entry := \<lparr>compression_method = 8, crc32 = 0, compressed_size = 5,
                       uncompressed_size = 7, data_offset = 0, filename = [0x61, 0],
                       have_data_descriptor = 8\<rparr>\<rparr>"

theorem get_data_success_length_and_crc32_witness:
  "\<exists>st'. lowzip_get_data deflated_abab = Some st' \<and> \<not> have_error st' \<and>
     output_written st' = [0x41, 0x42, 0x41, 0x42, 0x41, 0x42, 0x41] \<and>
     int (output_next st') = uint (uncompressed_size (file_entry deflated_abab)) \<and>
     length (output_written st') = unat (uncompressed_size (file_entry deflated_abab)) \<and>
     lowzip_zip_crc32 (output_written st') =
       authoritative_crc32 (file_entry deflated_abab) (read_callback deflated_abab) (read_offset st') \<and>
     authoritative_crc32 (file_entry deflated_abab) (read_callback deflated_abab) (read_offset st')
       = 0xdbc250ed"
proof -
  have "map_option (\<lambda>st. (have_error st, output_written st, read_offset st))
      (lowzip_get_data deflated_abab) = Some (False, [0x41, 0x42, 0x41, 0x42, 0x41, 0x42, 0x41], 5)"
    by code_simp
  then obtain st' where run: "lowzip_get_data deflated_abab = Some st'"
    and ok: "\<not> have_error st'" and out: "output_written st' = [0x41, 0x42, 0x41, 0x42, 0x41, 0x42, 0x41]"
    and ro: "read_offset st' = 5"
    by auto
  have inv: "output_next deflated_abab \<le> length (output_buf deflated_abab)"
    by code_simp
  have auth: "authoritative_crc32 (file_entry deflated_abab) (read_callback deflated_abab) 5 = 0xdbc250ed"
    by code_simp
  from get_data_success_length_and_crc32 [OF run ok] inv
  have "int (output_next st') = uint (uncompressed_size (file_entry deflated_abab))"
    and "length (output_written st') = unat (uncompressed_size (file_entry deflated_abab))"
    and "lowzip_zip_crc32 (output_written st') =
       authoritative_crc32 (file_entry deflated_abab) (read_callback deflated_abab) (read_offset st')"
    by simp_all
  with run ok out ro auth show ?thesis
    by auto
qed

text \<open>The function computes the standard CRC-32: the check value of \<open>123456789\<close>.\<close>

lemma zip_crc32_check_value:
  "lowzip_zip_crc32 [0x31, 0x32, 0x33, 0x34, 0x35, 0x36, 0x37, 0x38, 0x39] = 0xcbf43926"
  by code_simp

section \<open>Stored entries and \<open>read_offset\<close>\<close>

lemma get_data_store_read_offset:
  "read_offset (fst (get_data_store st offset offset_end)) = read_offset st"
proof (induction st offset offset_end rule: get_data_store.induct)
  case (1 st offset offset_end)
  show ?case
  proof (cases "offset < offset_end \<and> \<not> have_error st")
    case True
    obtain st1 t where r: "lowzip_read1 st offset = (st1, t)"
      by (cases "lowzip_read1 st offset")
    have "read_offset st1 = read_offset st"
      using r by (auto simp: read1_eq split: if_splits)
    moreover have "read_offset (lowzip_write_byte st1 (ucast t)) = read_offset st1"
      by (simp add: lowzip_write_byte_def)
    moreover have "read_offset (fst (get_data_store (lowzip_write_byte st1 (ucast t)) (offset + 1) offset_end))
        = read_offset (lowzip_write_byte st1 (ucast t))"
      using "1.IH" [OF _ _ r [symmetric]] True by simp
    ultimately show ?thesis
      using True r by (subst get_data_store.simps) simp
  next
    case False
    then show ?thesis
      by (subst get_data_store.simps) auto
  qed
qed

lemma get_data_validate_read_offset:
  "read_offset (get_data_validate st header_crc32 header_uncompressed_size flag) = read_offset st"
  by (auto simp: get_data_validate_def get_data_header_crc32_def read4_eq Let_def
      split: prod.splits if_splits)

text \<open>
  Claim C10. For a stored entry \<open>lowzip_get_data\<close> returns with \<open>read_offset\<close> as it was
  before the call: the bytes are copied with absolute offsets. So when the entry has the
  data-descriptor flag and the call succeeds, the CRC that was compared is the one of the
  record at the value \<open>read_offset\<close> had before the call. Only for a deflated entry the
  value before the call does not matter, since \<open>read_offset\<close> is set to \<open>data_offset\<close>
  before inflating.
\<close>

theorem get_data_store_leaves_read_offset:
  "(compression_method (file_entry st) = LOWZIP_COMPRESSION_STORE \<longrightarrow>
      (\<exists>st'. lowzip_get_data st = Some st' \<and> read_offset st' = read_offset st \<and>
         (\<not> have_error st' \<and> have_data_descriptor (file_entry st) \<noteq> 0 \<longrightarrow>
            readable (read_callback st) (read_offset st) 4 \<and>
            lowzip_zip_crc32 (output_written st') =
              data_descriptor_crc32 (read_callback st) (read_offset st)))) \<and>
   (compression_method (file_entry st) = LOWZIP_COMPRESSION_DEFLATE \<longrightarrow>
      lowzip_get_data (st\<lparr>read_offset := r\<rparr>) = lowzip_get_data st)"
proof (intro conjI impI)
  assume m: "compression_method (file_entry st) = LOWZIP_COMPRESSION_STORE"
  define st0 where "st0 = st\<lparr>have_error := False\<rparr>"
  obtain st1 failed where s: "get_data_store st0 (data_offset (file_entry st))
      (data_offset (file_entry st) + uncompressed_size (file_entry st)) = (st1, failed)"
    by (cases "get_data_store st0 (data_offset (file_entry st))
      (data_offset (file_entry st) + uncompressed_size (file_entry st))")
  define st2 where "st2 = get_data_validate st1 (crc32 (file_entry st))
      (uncompressed_size (file_entry st)) (have_data_descriptor (file_entry st))"
  have ro1: "read_offset st1 = read_offset st"
    using get_data_store_read_offset [of st0 "data_offset (file_entry st)"
        "data_offset (file_entry st) + uncompressed_size (file_entry st)"] s
    by (simp add: st0_def)
  have cb1: "read_callback st1 = read_callback st"
    using get_data_store_writes_within [of st0 "data_offset (file_entry st)"
        "data_offset (file_entry st) + uncompressed_size (file_entry st)"] s
    by (simp add: st0_def writes_within_def)
  have ro2: "read_offset st2 = read_offset st"
    using ro1 by (simp add: st2_def get_data_validate_read_offset)
  have res: "lowzip_get_data st = Some (if failed then st1\<lparr>have_error := True\<rparr> else st2)"
    using m s by (simp add: lowzip_get_data_def Let_def st0_def st2_def)
  have "readable (read_callback st) (read_offset st) 4 \<and>
      lowzip_zip_crc32 (output_written st2) = data_descriptor_crc32 (read_callback st) (read_offset st)"
    if "\<not> have_error st2" "have_data_descriptor (file_entry st) \<noteq> 0"
    using get_data_validate_success [of st1 "crc32 (file_entry st)" "uncompressed_size (file_entry st)"
        "have_data_descriptor (file_entry st)"] that ro1 cb1
    by (simp add: st2_def)
  then show "\<exists>st'. lowzip_get_data st = Some st' \<and> read_offset st' = read_offset st \<and>
         (\<not> have_error st' \<and> have_data_descriptor (file_entry st) \<noteq> 0 \<longrightarrow>
            readable (read_callback st) (read_offset st) 4 \<and>
            lowzip_zip_crc32 (output_written st') =
              data_descriptor_crc32 (read_callback st) (read_offset st))"
    using res ro1 ro2 by auto
next
  assume "compression_method (file_entry st) = LOWZIP_COMPRESSION_DEFLATE"
  then show "lowzip_get_data (st\<lparr>read_offset := r\<rparr>) = lowzip_get_data st"
    by (simp add: lowzip_get_data_def Let_def LOWZIP_COMPRESSION_DEFLATE_def
        LOWZIP_COMPRESSION_STORE_def cong: option.case_cong)
qed

text \<open>
  A stored entry of the byte \<open>A\<close> whose data descriptor follows the data at offset 1. With
  \<open>read_offset\<close> set to 1 before the call the entry is extracted; with \<open>read_offset\<close> at 0,
  as the test program leaves it, the CRC is read at offset 0 and the call fails.
\<close>

definition stored_A_descriptor :: lowzip_state where
  "stored_A_descriptor =
     (test_state [0x41, 0x50, 0x4b, 0x07, 0x08, 0x8b, 0x9e, 0xd9, 0xd3, 1, 0, 0, 0, 1, 0, 0, 0] 1)
     \<lparr>file_entry := \<lparr>compression_method = 0, crc32 = 0, compressed_size = 1,
                       uncompressed_size = 1, data_offset = 0, filename = [0x61, 0],
                       have_data_descriptor = 8\<rparr>\<rparr>"

lemma stored_descriptor_runs:
  "map_option (\<lambda>st. (have_error st, output_written st, read_offset st))
      (lowzip_get_data (stored_A_descriptor\<lparr>read_offset := 1\<rparr>)) = Some (False, [0x41], 1) \<and>
   map_option (\<lambda>st. (have_error st, output_written st, read_offset st))
      (lowzip_get_data stored_A_descriptor) = Some (True, [0x41], 0)"
  by code_simp

theorem get_data_store_leaves_read_offset_witness:
  "compression_method (file_entry (stored_A_descriptor\<lparr>read_offset := 1\<rparr>)) = LOWZIP_COMPRESSION_STORE \<and>
   (\<exists>st'. lowzip_get_data (stored_A_descriptor\<lparr>read_offset := 1\<rparr>) = Some st' \<and>
      read_offset st' = 1 \<and> \<not> have_error st' \<and>
      lowzip_zip_crc32 (output_written st') =
        data_descriptor_crc32 (read_callback (stored_A_descriptor\<lparr>read_offset := 1\<rparr>)) 1) \<and>
   (\<exists>st'. lowzip_get_data stored_A_descriptor = Some st' \<and> read_offset st' = 0 \<and> have_error st')"
proof -
  define ex where "ex = stored_A_descriptor\<lparr>read_offset := 1\<rparr>"
  have m: "compression_method (file_entry ex) = LOWZIP_COMPRESSION_STORE"
    unfolding ex_def by code_simp
  have flag: "have_data_descriptor (file_entry ex) \<noteq> 0"
    unfolding ex_def by code_simp
  have ro: "read_offset ex = 1"
    by (simp add: ex_def)
  from get_data_store_leaves_read_offset [of ex] m
  obtain st' where run: "lowzip_get_data ex = Some st'" and ro': "read_offset st' = read_offset ex"
    and crc: "\<not> have_error st' \<and> have_data_descriptor (file_entry ex) \<noteq> 0 \<longrightarrow>
            readable (read_callback ex) (read_offset ex) 4 \<and>
            lowzip_zip_crc32 (output_written st') =
              data_descriptor_crc32 (read_callback ex) (read_offset ex)"
    by blast
  have "map_option have_error (lowzip_get_data ex) = Some False"
    using stored_descriptor_runs by (auto simp: ex_def)
  then have ok: "\<not> have_error st'"
    using run by simp
  have first: "\<exists>st'. lowzip_get_data ex = Some st' \<and>
      read_offset st' = 1 \<and> \<not> have_error st' \<and>
      lowzip_zip_crc32 (output_written st') = data_descriptor_crc32 (read_callback ex) 1"
    using run ro' ro ok crc flag by auto
  have "map_option (\<lambda>st. (have_error st, read_offset st)) (lowzip_get_data stored_A_descriptor)
      = Some (True, 0)"
    using stored_descriptor_runs by auto
  then have second: "\<exists>st'. lowzip_get_data stored_A_descriptor = Some st' \<and> read_offset st' = 0 \<and>
      have_error st'"
    by auto
  from m first second show ?thesis
    unfolding ex_def by blast
qed

section \<open>Back-references that overlap the output cursor\<close>

text \<open>
  What a back-reference of distance \<open>d\<close> and length \<open>n\<close> appends to the bytes \<open>xs\<close> written so
  far: one byte at a time, each the byte \<open>d\<close> places before the end of what is written by
  then, so that a reference longer than its distance repeats the bytes it has just written.
\<close>

fun rle_extend :: "u8 list \<Rightarrow> nat \<Rightarrow> nat \<Rightarrow> u8 list" where
  "rle_extend xs d 0 = xs"
| "rle_extend xs d (Suc n) = rle_extend (xs @ [xs ! (length xs - d)]) d n"

lemma back_copy_written:
  assumes "0 < d" and "d \<le> output_next st" and "output_next st + len \<le> length (output_buf st)"
  shows "output_written (back_copy st d len) = rle_extend (output_written st) d len"
  using assms
proof (induction len arbitrary: st)
  case 0
  then show ?case by simp
next
  case (Suc len)
  define st1 where "st1 = st\<lparr>output_buf := (output_buf st)[output_next st := output_buf st ! (output_next st - d)],
           output_next := output_next st + 1\<rparr>"
  have n: "output_next st < length (output_buf st)"
    using Suc.prems by simp
  have w: "output_written st1 = output_written st @ [output_written st ! (length (output_written st) - d)]"
    using n Suc.prems(1,2)
    by (simp add: st1_def output_written_def take_Suc_conv_app_nth min_def)
  have "output_written (back_copy st1 d len) = rle_extend (output_written st1) d len"
    using Suc.prems by (intro Suc.IH) (simp_all add: st1_def)
  then show ?case
    using w by (simp add: st1_def)
qed

lemma read_bits_0: "lowzip_read_bits st 0 = (st, 0)"
  by (simp add: lowzip_read_bits_def read_bits_fill.simps)

text \<open>
  Claim C7. The copy of a back-reference goes byte by byte from \<open>output_next - distance\<close>
  to \<open>output_next\<close>, advancing \<open>output_next\<close> after each byte. For a decoder that has
  written the bytes \<open>a\<close>, \<open>b\<close> last and now decodes the length symbol 259 (length 5, no extra
  bits) followed by the distance symbol 1 (distance 2, no extra bits), with room for 5
  bytes, the back-reference branch appends exactly \<open>a\<close>, \<open>b\<close>, \<open>a\<close>, \<open>b\<close>, \<open>a\<close>.
\<close>

theorem back_reference_length_5_distance_2:
  assumes d: "block_data_distance st static_huffman = (st2, 1)"
    and two: "2 \<le> output_next st" and fit: "output_next st + 5 \<le> length (output_buf st)"
    and a: "output_buf st ! (output_next st - 2) = a"
    and b: "output_buf st ! (output_next st - 1) = b"
  shows "\<exists>st'. block_data_backref st static_huffman 259 = (st', False) \<and>
    output_next st' = output_next st + 5 \<and>
    output_written st' = output_written st @ [a, b, a, b, a]"
proof -
  have ro: "output_buf st2 = output_buf st" "output_next st2 = output_next st"
    using block_data_distance_reads_only [of st static_huffman] d by (simp_all add: reads_only_def)
  have res: "block_data_backref st static_huffman 259 = (back_copy st2 2 5, False)"
    using d two fit ro
    by (simp add: block_data_backref_def read_bits_0 lowzip_len_bits_def lowzip_len_base_def
        lowzip_dist_bits_def lowzip_dist_base_def Let_def)
  have "output_written (back_copy st2 2 5) = rle_extend (output_written st2) 2 5"
    using two fit ro by (intro back_copy_written) simp_all
  moreover have "output_written st2 = output_written st"
    using ro by (simp add: output_written_def)
  moreover have "length (output_written st) = output_next st"
    using fit by (simp add: output_written_def)
  moreover have "output_written st ! (output_next st - 2) = a" "output_written st ! (output_next st - 1) = b"
    using two fit a b by (simp_all add: output_written_def)
  ultimately have "output_written (back_copy st2 2 5) = output_written st @ [a, b, a, b, a]"
    using two by (simp add: eval_nat_numeral nth_append)
  then show ?thesis
    using res ro by (simp add: back_copy_output_next)
qed

text \<open>
  The witness: the output holds \<open>A\<close>, \<open>B\<close> and the input holds the static distance code of
  the distance symbol 1. The last part is the whole decoder on \<open>abab_stream\<close>, the static
  Huffman block with the literals \<open>A\<close>, \<open>B\<close>, the length symbol 259, the distance symbol 1
  and the end of block symbol.
\<close>

definition after_AB :: lowzip_state where
  "after_AB = (test_state [16] 7)\<lparr>output_buf := [0x41, 0x42, 0, 0, 0, 0, 0], output_next := 2\<rparr>"

theorem back_reference_length_5_distance_2_witness:
  "snd (block_data_distance after_AB True) = 1 \<and>
   (\<exists>st'. block_data_backref after_AB True 259 = (st', False) \<and>
      output_written st' = [0x41, 0x42, 0x41, 0x42, 0x41, 0x42, 0x41]) \<and>
   map_option (\<lambda>st. (have_error st, output_written st)) (lowzip_inflate_raw (test_state abab_stream 7))
     = Some (False, [0x41, 0x42, 0x41, 0x42, 0x41, 0x42, 0x41])"
proof -
  have d1: "snd (block_data_distance after_AB True) = 1"
    by code_simp
  then have d: "block_data_distance after_AB True = (fst (block_data_distance after_AB True), 1)"
    by (metis prod.collapse)
  have two: "2 \<le> output_next after_AB" and fit: "output_next after_AB + 5 \<le> length (output_buf after_AB)"
    and a: "output_buf after_AB ! (output_next after_AB - 2) = 0x41"
    and b: "output_buf after_AB ! (output_next after_AB - 1) = 0x42"
    and w: "output_written after_AB = [0x41, 0x42]"
    by code_simp+
  from back_reference_length_5_distance_2 [OF d two fit a b] w
  have "\<exists>st'. block_data_backref after_AB True 259 = (st', False) \<and>
      output_written st' = [0x41, 0x42, 0x41, 0x42, 0x41, 0x42, 0x41]"
    by auto
  moreover have "map_option (\<lambda>st. (have_error st, output_written st))
      (lowzip_inflate_raw (test_state abab_stream 7))
     = Some (False, [0x41, 0x42, 0x41, 0x42, 0x41, 0x42, 0x41])"
    by code_simp
  ultimately show ?thesis
    using d1 by blast
qed

section \<open>The checks of a back-reference\<close>

text \<open>
  Claim C4. One round of the block data loop that starts without error and decodes a
  symbol \<open>S \<ge> 257\<close>; \<open>len_extra\<close>, \<open>D\<close> and \<open>dist_extra\<close> are what the round reads next (the
  extra bits of the length, the distance symbol, the extra bits of the distance). If
  \<open>S > 285\<close> the loop ends with \<open>have_error\<close> set. For \<open>S \<le> 285\<close>: if \<open>D > 29\<close> it ends with
  \<open>have_error\<close> set; and if the distance \<open>dist_base[D] + dist_extra\<close> is more than the number
  of bytes written, or the length \<open>len_base[S - 257] + 3 + len_extra\<close> is more than the
  space left, it ends with \<open>have_error\<close> set. In each case the state returned has the
  output window and the cursor of the state the round started with: nothing was written.
\<close>

theorem block_data_back_reference_checks:
  assumes ne: "\<not> have_error st"
    and sym: "block_data_symbol st static_huffman = (st1, S)" and S: "257 \<le> S"
    and le: "lowzip_read_bits st1 (unat (lowzip_len_bits ! unat (S - 257))) = (st2, len_extra)"
    and di: "block_data_distance st2 static_huffman = (st3, D)"
    and de: "lowzip_read_bits st3 (unat (lowzip_dist_bits ! unat D)) = (st4, dist_extra)"
  shows "(285 < S \<longrightarrow>
      lowzip_decode_huffman_block_data st static_huffman = st1\<lparr>have_error := True\<rparr>) \<and>
    (S \<le> 285 \<and> 29 < D \<longrightarrow>
      lowzip_decode_huffman_block_data st static_huffman = st3\<lparr>have_error := True\<rparr>) \<and>
    (S \<le> 285 \<and> D \<le> 29 \<and>
       (int (output_next st) < uint ((ucast (lowzip_dist_base ! unat D) :: u32) + dist_extra) \<or>
        int (length (output_buf st)) - int (output_next st)
          < uint ((ucast (lowzip_len_base ! unat (S - 257)) :: u32) + 3 + len_extra)) \<longrightarrow>
      lowzip_decode_huffman_block_data st static_huffman = st4\<lparr>have_error := True\<rparr>) \<and>
    output_buf st1 = output_buf st \<and> output_next st1 = output_next st \<and>
    output_buf st3 = output_buf st \<and> output_next st3 = output_next st \<and>
    output_buf st4 = output_buf st \<and> output_next st4 = output_next st"
proof -
  have r1: "reads_only st st1"
    using block_data_symbol_reads_only [of st static_huffman] sym by simp
  have "reads_only st1 st2"
    using read_bits_reads_only [of st1 "unat (lowzip_len_bits ! unat (S - 257))"] le by simp
  moreover have "reads_only st2 st3"
    using block_data_distance_reads_only [of st2 static_huffman] di by simp
  ultimately have r3: "reads_only st st3"
    using r1 by (blast intro: reads_only_trans)
  have "reads_only st3 st4"
    using read_bits_reads_only [of st3 "unat (lowzip_dist_bits ! unat D)"] de by simp
  with r3 have r4: "reads_only st st4"
    by (rule reads_only_trans)
  have nlit: "\<not> S < 256" and neob: "S \<noteq> 256"
    using S by (auto simp: word_le_nat_alt word_less_nat_alt)
  have loop: "lowzip_decode_huffman_block_data st static_huffman =
      (case block_data_backref st1 static_huffman S of
         (st', abort) \<Rightarrow> if abort then st'\<lparr>have_error := True\<rparr>
                         else lowzip_decode_huffman_block_data st' static_huffman)"
    using ne sym nlit neob by (subst lowzip_decode_huffman_block_data.simps) simp
  have c1: "285 < S \<longrightarrow>
      lowzip_decode_huffman_block_data st static_huffman = st1\<lparr>have_error := True\<rparr>"
    by (simp add: loop block_data_backref_def)
  have c2: "S \<le> 285 \<and> 29 < D \<longrightarrow>
      lowzip_decode_huffman_block_data st static_huffman = st3\<lparr>have_error := True\<rparr>"
    using le di by (auto simp: loop block_data_backref_def Let_def)
  have c3: "S \<le> 285 \<and> D \<le> 29 \<and>
       (int (output_next st) < uint ((ucast (lowzip_dist_base ! unat D) :: u32) + dist_extra) \<or>
        int (length (output_buf st)) - int (output_next st)
          < uint ((ucast (lowzip_len_base ! unat (S - 257)) :: u32) + 3 + len_extra)) \<longrightarrow>
      lowzip_decode_huffman_block_data st static_huffman = st4\<lparr>have_error := True\<rparr>"
    using le di de r4 by (auto simp: loop block_data_backref_def Let_def reads_only_def)
  from c1 c2 c3 r1 r3 r4 show ?thesis
    by (simp add: reads_only_def)
qed


text \<open>
  Four inputs of the static decoder: the length symbol 257 with distance 1 when nothing
  has been written; the length symbol 259 (length 5) with two bytes written and four bytes
  of space; the distance symbol 30; and the length symbol 286.
\<close>

definition far_reference :: lowzip_state where
  "far_reference = test_state [64, 0] 10"

definition long_reference :: lowzip_state where
  "long_reference = (test_state [96, 8] 6)\<lparr>output_buf := [0x41, 0x42, 0, 0, 0, 0], output_next := 2\<rparr>"

definition bad_distance_symbol :: lowzip_state where
  "bad_distance_symbol =
     (test_state [192, 7] 10)\<lparr>output_buf := [0x41, 0x42, 0, 0, 0, 0, 0, 0, 0, 0], output_next := 2\<rparr>"

definition bad_length_symbol :: lowzip_state where
  "bad_length_symbol = test_state [99] 10"

lemma back_reference_examples:
  "snd (block_data_symbol far_reference True) = 257"
  "snd (block_data_symbol long_reference True) = 259"
  "snd (block_data_symbol bad_distance_symbol True) = 257"
  "snd (block_data_symbol bad_length_symbol True) = 286"
  by code_simp+

theorem block_data_back_reference_checks_witness:
  "(have_error (lowzip_decode_huffman_block_data far_reference True) \<and>
    output_next (lowzip_decode_huffman_block_data far_reference True) = 0) \<and>
   (have_error (lowzip_decode_huffman_block_data long_reference True) \<and>
    output_written (lowzip_decode_huffman_block_data long_reference True) = [0x41, 0x42]) \<and>
   (have_error (lowzip_decode_huffman_block_data bad_distance_symbol True) \<and>
    output_written (lowzip_decode_huffman_block_data bad_distance_symbol True) = [0x41, 0x42]) \<and>
   (have_error (lowzip_decode_huffman_block_data bad_length_symbol True) \<and>
    output_next (lowzip_decode_huffman_block_data bad_length_symbol True) = 0)"
proof -
  {
    fix st :: lowzip_state
    let ?p = "block_data_symbol st True"
    let ?q = "lowzip_read_bits (fst ?p) (unat (lowzip_len_bits ! unat (snd ?p - 257)))"
    let ?r = "block_data_distance (fst ?q) True"
    let ?s = "lowzip_read_bits (fst ?r) (unat (lowzip_dist_bits ! unat (snd ?r)))"
    let ?unchanged = "have_error (lowzip_decode_huffman_block_data st True) \<and>
      output_buf (lowzip_decode_huffman_block_data st True) = output_buf st \<and>
      output_next (lowzip_decode_huffman_block_data st True) = output_next st"
    assume ne: "\<not> have_error st"
    have inst: "257 \<le> snd ?p \<Longrightarrow>
      (285 < snd ?p \<longrightarrow>
        lowzip_decode_huffman_block_data st True = (fst ?p)\<lparr>have_error := True\<rparr>) \<and>
      (snd ?p \<le> 285 \<and> 29 < snd ?r \<longrightarrow>
        lowzip_decode_huffman_block_data st True = (fst ?r)\<lparr>have_error := True\<rparr>) \<and>
      (snd ?p \<le> 285 \<and> snd ?r \<le> 29 \<and>
         (int (output_next st) < uint ((ucast (lowzip_dist_base ! unat (snd ?r)) :: u32) + snd ?s) \<or>
          int (length (output_buf st)) - int (output_next st)
            < uint ((ucast (lowzip_len_base ! unat (snd ?p - 257)) :: u32) + 3 + snd ?q)) \<longrightarrow>
        lowzip_decode_huffman_block_data st True = (fst ?s)\<lparr>have_error := True\<rparr>) \<and>
      output_buf (fst ?p) = output_buf st \<and> output_next (fst ?p) = output_next st \<and>
      output_buf (fst ?r) = output_buf st \<and> output_next (fst ?r) = output_next st \<and>
      output_buf (fst ?s) = output_buf st \<and> output_next (fst ?s) = output_next st"
      by (rule block_data_back_reference_checks [OF ne]) simp_all
    have c1: "285 < snd ?p \<Longrightarrow> ?unchanged"
    proof -
      assume gt: "285 < snd ?p"
      then have "257 \<le> snd ?p"
        by (simp add: word_le_nat_alt word_less_nat_alt)
      from inst [OF this] gt show ?unchanged
        by simp
    qed
    have c2: "257 \<le> snd ?p \<Longrightarrow> snd ?p \<le> 285 \<Longrightarrow> 29 < snd ?r \<Longrightarrow> ?unchanged"
      using inst by simp
    have c3: "257 \<le> snd ?p \<Longrightarrow> snd ?p \<le> 285 \<Longrightarrow> snd ?r \<le> 29 \<Longrightarrow>
        int (output_next st) < uint ((ucast (lowzip_dist_base ! unat (snd ?r)) :: u32) + snd ?s) \<Longrightarrow>
        ?unchanged"
      using inst by simp
    have c4: "257 \<le> snd ?p \<Longrightarrow> snd ?p \<le> 285 \<Longrightarrow> snd ?r \<le> 29 \<Longrightarrow>
        int (length (output_buf st)) - int (output_next st)
          < uint ((ucast (lowzip_len_base ! unat (snd ?p - 257)) :: u32) + 3 + snd ?q) \<Longrightarrow>
        ?unchanged"
      using inst by simp
    from c1 c2 c3 c4 have "(285 < snd ?p \<longrightarrow> ?unchanged) \<and>
        (257 \<le> snd ?p \<longrightarrow> snd ?p \<le> 285 \<longrightarrow> 29 < snd ?r \<longrightarrow> ?unchanged) \<and>
        (257 \<le> snd ?p \<longrightarrow> snd ?p \<le> 285 \<longrightarrow> snd ?r \<le> 29 \<longrightarrow>
          int (output_next st) < uint ((ucast (lowzip_dist_base ! unat (snd ?r)) :: u32) + snd ?s) \<longrightarrow>
          ?unchanged) \<and>
        (257 \<le> snd ?p \<longrightarrow> snd ?p \<le> 285 \<longrightarrow> snd ?r \<le> 29 \<longrightarrow>
          int (length (output_buf st)) - int (output_next st)
            < uint ((ucast (lowzip_len_base ! unat (snd ?p - 257)) :: u32) + 3 + snd ?q) \<longrightarrow>
          ?unchanged)"
      by blast
  }
  note cases = this
  have a: "have_error (lowzip_decode_huffman_block_data far_reference True) \<and>
      output_buf (lowzip_decode_huffman_block_data far_reference True) = output_buf far_reference \<and>
      output_next (lowzip_decode_huffman_block_data far_reference True) = output_next far_reference"
    by (rule cases [THEN conjunct2, THEN conjunct2, THEN conjunct1, rule_format]; code_simp)
  have b: "have_error (lowzip_decode_huffman_block_data long_reference True) \<and>
      output_buf (lowzip_decode_huffman_block_data long_reference True) = output_buf long_reference \<and>
      output_next (lowzip_decode_huffman_block_data long_reference True) = output_next long_reference"
    by (rule cases [THEN conjunct2, THEN conjunct2, THEN conjunct2, rule_format]; code_simp)
  have c: "have_error (lowzip_decode_huffman_block_data bad_distance_symbol True) \<and>
      output_buf (lowzip_decode_huffman_block_data bad_distance_symbol True)
        = output_buf bad_distance_symbol \<and>
      output_next (lowzip_decode_huffman_block_data bad_distance_symbol True)
        = output_next bad_distance_symbol"
    by (rule cases [THEN conjunct2, THEN conjunct1, rule_format]; code_simp)
  have d: "have_error (lowzip_decode_huffman_block_data bad_length_symbol True) \<and>
      output_buf (lowzip_decode_huffman_block_data bad_length_symbol True)
        = output_buf bad_length_symbol \<and>
      output_next (lowzip_decode_huffman_block_data bad_length_symbol True)
        = output_next bad_length_symbol"
    by (rule cases [THEN conjunct1, rule_format]; code_simp)
  have e: "output_next far_reference = 0" "output_written long_reference = [0x41, 0x42]"
    "output_written bad_distance_symbol = [0x41, 0x42]" "output_next bad_length_symbol = 0"
    by code_simp+
  from a b c d e show ?thesis
    by (simp add: output_written_def)
qed

section \<open>The code lengths of a dynamic Huffman block\<close>

lemma rep_emit_overrun:
  "n < i + k \<Longrightarrow> 0 < k \<Longrightarrow> \<exists>temp' i'. rep_emit temp i n rep_code k = (temp', i', True)"
proof (induction k arbitrary: temp i)
  case 0
  then show ?case by simp
next
  case (Suc k)
  show ?case
  proof (cases "i \<ge> n")
    case True
    then show ?thesis by simp
  next
    case False
    then have "n < Suc i + k" and "0 < k"
      using Suc.prems by simp_all
    from Suc.IH [OF this, of "temp[i := rep_code]"] False show ?thesis
      by simp
  qed
qed

lemma dynamic_code_lens_exit:
  "dynamic_code_lens st i n temp = (st', temp', i', False) \<Longrightarrow> i' = n"
proof (induction st i n temp rule: dynamic_code_lens.induct)
  case (1 st i n temp)
  show ?case
  proof (cases "i = n")
    case True
    then show ?thesis
      using "1.prems" by (subst (asm) dynamic_code_lens.simps) simp
  next
    case ne: False
    obtain st1 rc where s: "dynamic_code_len_symbol st i temp = (st1, rc)"
      by (cases "dynamic_code_len_symbol st i temp")
    show ?thesis
    proof (cases rc)
      case None
      then show ?thesis
        using "1.prems" ne s by (subst (asm) dynamic_code_lens.simps) simp
    next
      case (Some p)
      obtain rep_code rep_count where p: "p = (rep_code, rep_count)"
        by (cases p)
      obtain temp1 i1 failed where e: "rep_emit temp i n rep_code (unat rep_count) = (temp1, i1, failed)"
        by (cases "rep_emit temp i n rep_code (unat rep_count)")
      show ?thesis
      proof (cases failed)
        case True
        then show ?thesis
          using "1.prems" ne s Some p e by (subst (asm) dynamic_code_lens.simps) simp
      next
        case False
        have "dynamic_code_lens st1 i1 n temp1 = (st', temp', i', False)"
          using "1.prems" ne s Some p e False by (subst (asm) dynamic_code_lens.simps) simp
        then show ?thesis
          by (rule "1.IH" [OF ne s [symmetric] Some p [symmetric] e [symmetric] refl False])
      qed
    qed
  qed
qed

text \<open>
  Claim C6. \<open>st5\<close> is the state of a dynamic block once the code length table is built,
  and \<open>n\<close> is \<open>nlit + ndist\<close>. If the first code length symbol decoded is 16, the code length
  loop leaves through \<open>format_error\<close> at once, with no length stored and \<open>i = 0\<close>. Whenever
  the loop leaves through \<open>format_error\<close>, the block returns with \<open>have_error\<close> set and the
  output as it was: no block data is decoded. A run of repeats that goes beyond \<open>n\<close>
  entries makes the loop leave through \<open>format_error\<close>. And the loop leaves normally only
  with \<open>i = n\<close>: exactly \<open>nlit + ndist\<close> lengths were stored.
\<close>

theorem dynamic_huffman_code_lengths:
  assumes h1: "lowzip_read_bits st 5 = (st1, a)" and h2: "lowzip_read_bits st1 5 = (st2, b)"
    and h3: "lowzip_read_bits st2 4 = (st3, c)"
    and h4: "read_codelen_lens st3 0 (unat (c + 4)) (replicate 19 0) = (st4, codelen_code_lens)"
    and st5: "st5 = lowzip_prepare_huffman st4 codelen_code_lens 0"
    and n: "n = unat (a + 257 + (b + 1))"
  shows "(\<forall>st6 temp. lowzip_decode_huffman st5 0 = (st6, 16) \<longrightarrow>
       dynamic_code_lens st5 0 n temp = (st6, temp, 0, True)) \<and>
    (\<forall>st6 temp i. dynamic_code_lens st5 0 n (replicate 320 0) = (st6, temp, i, True) \<longrightarrow>
       have_error (lowzip_decode_dynamic_huffman_block st) \<and>
       output_buf (lowzip_decode_dynamic_huffman_block st) = output_buf st \<and>
       output_next (lowzip_decode_dynamic_huffman_block st) = output_next st) \<and>
    (\<forall>s i temp s' rep_code rep_count.
       i \<noteq> n \<and> dynamic_code_len_symbol s i temp = (s', Some (rep_code, rep_count)) \<and>
       n < i + unat rep_count \<longrightarrow>
       (\<exists>temp' i'. dynamic_code_lens s i n temp = (s', temp', i', True))) \<and>
    (\<forall>s i temp s' temp' i'. dynamic_code_lens s i n temp = (s', temp', i', False) \<longrightarrow> i' = n)"
proof -
  have p1: "\<forall>st6 temp. lowzip_decode_huffman st5 0 = (st6, 16) \<longrightarrow>
       dynamic_code_lens st5 0 n temp = (st6, temp, 0, True)"
  proof (intro allI impI)
  fix st6 temp
  assume d: "lowzip_decode_huffman st5 0 = (st6, 16)"
  have "unat a < 2 ^ 5" "unat b < 2 ^ 5"
    using read_bits_bound [of st 5] read_bits_bound [of st1 5] h1 h2 by simp_all
  then have "n \<noteq> 0"
    unfolding n by (simp add: unat_word_ariths)
  moreover have "dynamic_code_len_symbol st5 0 temp = (st6, None)"
    using d by (simp add: dynamic_code_len_symbol_def)
  ultimately show "dynamic_code_lens st5 0 n temp = (st6, temp, 0, True)"
    by (subst dynamic_code_lens.simps) simp
  qed
  have p2: "\<forall>st6 temp i. dynamic_code_lens st5 0 n (replicate 320 0) = (st6, temp, i, True) \<longrightarrow>
       have_error (lowzip_decode_dynamic_huffman_block st) \<and>
       output_buf (lowzip_decode_dynamic_huffman_block st) = output_buf st \<and>
       output_next (lowzip_decode_dynamic_huffman_block st) = output_next st"
  proof (intro allI impI)
  fix st6 temp i
  assume f: "dynamic_code_lens st5 0 n (replicate 320 0) = (st6, temp, i, True)"
  have "reads_only st st1"
    using read_bits_reads_only [of st 5] h1 by simp
  moreover have "reads_only st1 st2"
    using read_bits_reads_only [of st1 5] h2 by simp
  moreover have "reads_only st2 st3"
    using read_bits_reads_only [of st2 4] h3 by simp
  moreover have "reads_only st3 st4"
    using read_codelen_lens_reads_only [of st3 0 "unat (c + 4)" "replicate 19 0"] h4 by simp
  ultimately have o4: "output_buf st4 = output_buf st \<and> output_next st4 = output_next st"
    by (simp add: reads_only_def)
  have o5: "output_buf st5 = output_buf st \<and> output_next st5 = output_next st"
    using o4 prepare_huffman_output [of st4 codelen_code_lens 0] by (simp add: st5)
  have "reads_only st5 st6"
    using dynamic_code_lens_reads_only [of st5 0 n "replicate 320 0"] f by simp
  then have o6: "output_buf st6 = output_buf st \<and> output_next st6 = output_next st"
    using o5 by (simp add: reads_only_def)
  have "lowzip_decode_dynamic_huffman_block st =
      (if have_error st5 then st5 else st6\<lparr>have_error := True\<rparr>)"
    using h1 h2 h3 h4 f by (simp add: lowzip_decode_dynamic_huffman_block_def Let_def st5 n)
  then show "have_error (lowzip_decode_dynamic_huffman_block st) \<and>
       output_buf (lowzip_decode_dynamic_huffman_block st) = output_buf st \<and>
       output_next (lowzip_decode_dynamic_huffman_block st) = output_next st"
    using o5 o6 by simp
  qed
  have p3: "\<forall>s i temp s' rep_code rep_count.
       i \<noteq> n \<and> dynamic_code_len_symbol s i temp = (s', Some (rep_code, rep_count)) \<and>
       n < i + unat rep_count \<longrightarrow>
       (\<exists>temp' i'. dynamic_code_lens s i n temp = (s', temp', i', True))"
  proof (intro allI impI)
  fix s i temp s' rep_code rep_count
  assume a: "i \<noteq> n \<and> dynamic_code_len_symbol s i temp = (s', Some (rep_code, rep_count)) \<and>
       n < i + unat rep_count"
  then have "0 < unat rep_count"
    using dynamic_code_len_symbol_count [of s i temp s' rep_code rep_count] by simp
  then obtain temp' i' where "rep_emit temp i n rep_code (unat rep_count) = (temp', i', True)"
    using a rep_emit_overrun [of n i "unat rep_count" temp rep_code] by blast
  then have "dynamic_code_lens s i n temp = (s', temp', i', True)"
    using a by (subst dynamic_code_lens.simps) simp
  then show "\<exists>temp' i'. dynamic_code_lens s i n temp = (s', temp', i', True)"
    by blast
  qed
  have p4: "\<forall>s i temp s' temp' i'. dynamic_code_lens s i n temp = (s', temp', i', False) \<longrightarrow> i' = n"
    using dynamic_code_lens_exit by blast
  from p1 p2 p3 p4 show ?thesis
    by blast
qed


text \<open>
  The state in which a dynamic block starts to decode code lengths (the start of
  \<open>lowzip_decode_dynamic_huffman_block\<close> up to the first \<open>lowzip_prepare_huffman\<close>), and two
  dynamic blocks, taken after their three header bits: in the first, the code length
  symbols 0 and 16 have codes of one bit and the first code is that of 16; in the second,
  two symbols 18 with 138 repeats each go beyond the 258 lengths announced.
\<close>

definition code_length_table_state :: "lowzip_state \<Rightarrow> lowzip_state" where
  "code_length_table_state st =
     (case lowzip_read_bits st 5 of (st1, a) \<Rightarrow>
      case lowzip_read_bits st1 5 of (st2, b) \<Rightarrow>
      case lowzip_read_bits st2 4 of (st3, c) \<Rightarrow>
      case read_codelen_lens st3 0 (unat (c + 4)) (replicate 19 0) of (st4, codelen_code_lens) \<Rightarrow>
        lowzip_prepare_huffman st4 codelen_code_lens 0)"

definition first_16 :: lowzip_state where
  "first_16 = fst (lowzip_read_bits (test_state [5, 0, 2, 36] 10) 3)"

definition overrun_18 :: lowzip_state where
  "overrun_18 = fst (lowzip_read_bits (test_state [5, 0, 128, 228, 255, 31] 10) 3)"

theorem dynamic_huffman_code_lengths_witness:
  "snd (lowzip_decode_huffman (code_length_table_state first_16) 0) = 16 \<and>
   have_error (lowzip_decode_dynamic_huffman_block first_16) \<and>
   output_next (lowzip_decode_dynamic_huffman_block first_16) = 0 \<and>
   map_option (\<lambda>st. (have_error st, output_written st)) (lowzip_inflate_raw (test_state [5, 0, 2, 36] 10))
     = Some (True, []) \<and>
   have_error (lowzip_decode_dynamic_huffman_block overrun_18)"
proof -
  let ?h1 = "lowzip_read_bits first_16 5"
  let ?h2 = "lowzip_read_bits (fst ?h1) 5"
  let ?h3 = "lowzip_read_bits (fst ?h2) 4"
  let ?h4 = "read_codelen_lens (fst ?h3) 0 (unat (snd ?h3 + 4)) (replicate 19 0)"
  let ?st5 = "code_length_table_state first_16"
  let ?n = "unat (snd ?h1 + 257 + (snd ?h2 + 1))"
  have st5: "?st5 = lowzip_prepare_huffman (fst ?h4) (snd ?h4) 0"
    by (simp add: code_length_table_state_def split: prod.splits)
  have inst: "(\<forall>st6 temp. lowzip_decode_huffman ?st5 0 = (st6, 16) \<longrightarrow>
       dynamic_code_lens ?st5 0 ?n temp = (st6, temp, 0, True)) \<and>
    (\<forall>st6 temp i. dynamic_code_lens ?st5 0 ?n (replicate 320 0) = (st6, temp, i, True) \<longrightarrow>
       have_error (lowzip_decode_dynamic_huffman_block first_16) \<and>
       output_buf (lowzip_decode_dynamic_huffman_block first_16) = output_buf first_16 \<and>
       output_next (lowzip_decode_dynamic_huffman_block first_16) = output_next first_16)"
    using dynamic_huffman_code_lengths [of first_16 "fst ?h1" "snd ?h1" "fst ?h2" "snd ?h2"
        "fst ?h3" "snd ?h3" "fst ?h4" "snd ?h4" ?st5 ?n, OF _ _ _ _ st5]
    by simp
  have s16: "snd (lowzip_decode_huffman ?st5 0) = 16"
    by code_simp
  then have "lowzip_decode_huffman ?st5 0 = (fst (lowzip_decode_huffman ?st5 0), 16)"
    by (metis prod.collapse)
  with inst have "dynamic_code_lens ?st5 0 ?n (replicate 320 0)
      = (fst (lowzip_decode_huffman ?st5 0), replicate 320 0, 0, True)"
    by blast
  with inst have "have_error (lowzip_decode_dynamic_huffman_block first_16) \<and>
       output_next (lowzip_decode_dynamic_huffman_block first_16) = output_next first_16"
    by blast
  moreover have "output_next first_16 = 0"
    by code_simp
  moreover have "map_option (\<lambda>st. (have_error st, output_written st))
      (lowzip_inflate_raw (test_state [5, 0, 2, 36] 10)) = Some (True, [])"
    by code_simp
  moreover have "have_error (lowzip_decode_dynamic_huffman_block overrun_18)"
    by code_simp
  ultimately show ?thesis
    using s16 by simp
qed

section \<open>Locating the end of central directory record\<close>

text \<open>Facts about an input read through \<open>my_read\<close>, and about the conversions of offsets.\<close>

lemma ucast_byte_in_bounds: "(ucast (x :: u8) :: u32) AND 0x100 = 0"
proof -
  have e: "(0x100 :: u32) = 2 ^ 8"
    by simp
  have "(ucast x :: u32) AND 2 ^ 8 = 0"
  proof (rule bit_word_eqI)
    fix n
    assume "n < LENGTH(32)"
    have "\<not> bit x 8"
      using bit_imp_le_length [of x 8] by auto
    then have "\<not> bit (ucast x :: u32) 8"
      by (simp add: bit_ucast_iff)
    then show "bit ((ucast x :: u32) AND 2 ^ 8) n = bit (0 :: u32) n"
      by (auto simp only: bit_and_iff bit_exp_iff bit_0_eq)
  qed
  then show ?thesis
    by (simp only: e)
qed

lemma unat_ucast_byte: "unat (ucast (x :: u8) :: u32) < 256"
proof -
  have "unat (ucast x :: u32) = take_bit 32 (unat x)"
    by (simp add: unsigned_ucast_eq)
  also have "\<dots> \<le> unat x"
    by (rule take_bit_nat_less_eq_self)
  finally show ?thesis
    using unsigned_less [of x, where 'a = nat] by simp
qed

lemma my_read_in_bounds:
  assumes "k < length input" and "length input < 4294967296"
  shows "my_read input (of_nat k) = ucast (input ! k)"
proof -
  have "unat (of_nat k :: u32) = k"
    using assms by (simp add: unat_of_nat)
  then show ?thesis
    using assms by (simp add: my_read_def)
qed

lemma my_read_readable:
  assumes "k + n \<le> length input" and "length input < 4294967296"
  shows "readable (my_read input) (of_nat k) n"
proof -
  have "my_read input (of_nat k + of_nat j) AND 0x100 = 0" if "j < n" for j
  proof -
    have "my_read input (of_nat (k + j)) = ucast (input ! (k + j))"
      using that assms by (intro my_read_in_bounds) simp_all
    then show ?thesis
      by (simp add: ucast_byte_in_bounds)
  qed
  then show ?thesis
    by (simp add: readable_def list_all_iff)
qed

lemma not_readable_first:
  assumes "cb offset AND 0x100 \<noteq> 0" and "0 < n"
  shows "\<not> readable cb offset n"
proof
  assume "readable cb offset n"
  then have "\<forall>k \<in> set [0..<n]. cb (offset + of_nat k) AND 0x100 = 0"
    by (simp add: readable_def list_all_iff)
  moreover have "0 \<in> set [0..<n]"
    using assms(2) by simp
  ultimately have "cb (offset + of_nat 0) AND 0x100 = 0"
    by blast
  then show False
    using assms(1) by simp
qed

lemma sint_of_nat_small: "k < 2147483648 \<Longrightarrow> sint (of_nat k :: u32) = int k"
proof -
  assume k: "k < 2147483648"
  have "sint (word_of_int (int k) :: u32) = signed_take_bit (LENGTH(32) - 1) (int k)"
    by (rule sint_sbintrunc')
  also have "\<dots> = int k"
    using k by (simp add: signed_take_bit_int_eq_self)
  finally show ?thesis
    by simp
qed

lemma unat_of_int_negative:
  assumes "- 2147483648 \<le> k" and "k < 0"
  shows "2147483648 \<le> unat (of_int k :: u32)"
proof -
  have "k mod 4294967296 = (k + 4294967296) mod 4294967296"
    by simp
  also have "\<dots> = k + 4294967296"
    using assms by (intro mod_pos_pos_trivial) simp_all
  finally have "uint (of_int k :: u32) = k + 4294967296"
    by (simp add: uint_word_of_int)
  then have "int (unat (of_int k :: u32)) = k + 4294967296"
    by (simp only: uint_nat)
  then show ?thesis
    using assms by linarith
qed

lemma le16_my_read_bound:
  assumes "k + 2 \<le> length input" and "length input < 4294967296"
  shows "unat (le16 (my_read input) (of_nat k)) < 65536"
proof -
  have a: "my_read input (of_nat k) = ucast (input ! k)"
    using assms by (intro my_read_in_bounds) simp_all
  have "my_read input (of_nat (k + 1)) = ucast (input ! (k + 1))"
    using assms by (intro my_read_in_bounds) simp_all
  then have b: "my_read input (of_nat k + 1) = ucast (input ! (k + 1))"
    by (simp add: add.commute)
  have "unat ((ucast (input ! k) :: u32) + push_bit 8 (ucast (input ! (k + 1)) :: u32))
      \<le> unat (ucast (input ! k) :: u32) + unat (push_bit 8 (ucast (input ! (k + 1)) :: u32))"
    by (simp add: unat_word_ariths)
  moreover have "unat (push_bit 8 (ucast (input ! (k + 1)) :: u32))
      \<le> unat (ucast (input ! (k + 1)) :: u32) * 256"
    by (simp add: push_bit_eq_mult unat_word_ariths)
  ultimately show ?thesis
    using unat_ucast_byte [of "input ! k"] unat_ucast_byte [of "input ! (k + 1)"]
    by (simp add: le16_def a b)
qed


text \<open>
  The acceptance test in the words of the specification: at \<open>offset\<close> the four bytes are
  the magic \<open>0x06054b50\<close> in little-endian order, and \<open>offset + 22\<close> plus the 16-bit comment
  length at \<open>offset + 20\<close> is the length of the archive.
\<close>

definition eocd_at :: "u8 list \<Rightarrow> nat \<Rightarrow> bool" where
  "eocd_at input offset \<longleftrightarrow>
     le32 (my_read input) (of_nat offset) = 0x06054b50 \<and>
     offset + 22 + unat (le16 (my_read input) (of_nat offset + 20)) = length input"

text \<open>
  The offsets that the scan of \<open>lowzip_init_archive\<close> visits, from \<open>offset\<close> down to
  \<open>lowest\<close>.
\<close>

function scan_offsets :: "int \<Rightarrow> int \<Rightarrow> nat list" where
  "scan_offsets lowest offset =
     (if offset < lowest then [] else nat offset # scan_offsets lowest (offset - 1))"
  by pat_completeness auto
termination
  by (relation "measure (\<lambda>(lowest, offset). nat (offset - lowest + 1))") auto

declare scan_offsets.simps [simp del]

text \<open>
  The offsets to test, highest first: from \<open>length - 22\<close> down to \<open>length - (65535 + 22)\<close>
  or 0, whichever comes first (the subtractions on natural numbers stop at 0).
\<close>

definition eocd_offsets :: "u8 list \<Rightarrow> nat list" where
  "eocd_offsets input = rev [length input - 65557 ..< length input - 21]"

lemma scan_negative:
  assumes cb: "read_callback st = my_read input" and zl: "zip_length st = of_nat (length input)"
    and len: "length input < 2147483648" and ne: "\<not> have_error st"
    and neg: "offset < 0" and lo: "- 2147483648 \<le> offset"
  shows "init_archive_scan st offset = st\<lparr>have_error := True\<rparr>"
proof -
  have "length input \<le> unat (of_int offset :: u32)"
    using unat_of_int_negative [OF lo neg] len by simp
  then have "my_read input (of_int offset) = 0x100"
    by (simp add: my_read_def)
  then have "\<not> readable (read_callback st) (of_int offset) 4"
    using cb by (intro not_readable_first) simp_all
  then have r: "lowzip_read4 st (of_int offset) = (st\<lparr>have_error := True\<rparr>, 0)"
    by (simp add: read4_eq)
  have "init_archive_scan (st\<lparr>have_error := True\<rparr>) (offset - 1) = st\<lparr>have_error := True\<rparr>"
    by (subst init_archive_scan.simps) simp
  then show ?thesis
    using ne r by (subst init_archive_scan.simps) simp
qed

lemma scan_finds:
  assumes cb: "read_callback st = my_read input" and zl: "zip_length st = of_nat (length input)"
    and len: "length input < 2147483648" and ne: "\<not> have_error st"
    and k: "int k - 1 \<le> int (length input) - 22"
  shows "init_archive_scan st (int k - 1) =
     (case find (eocd_at input) (scan_offsets (max 0 (int (length input) - 65557)) (int k - 1)) of
        Some offset \<Rightarrow> st\<lparr>central_dir_offset := le32 (my_read input) (of_nat offset + 16)\<rparr>
      | None \<Rightarrow> st\<lparr>have_error := True\<rparr>)"
  using k
proof (induction k)
  case 0
  have "scan_offsets (max 0 (int (length input) - 65557)) (int 0 - 1) = []"
    by (subst scan_offsets.simps) simp
  moreover have "init_archive_scan st (int 0 - 1) = st\<lparr>have_error := True\<rparr>"
    using cb zl len ne by (intro scan_negative) simp_all
  ultimately show ?case
    by simp
next
  case (Suc k)
  have fit: "k + 22 \<le> length input"
    using Suc.prems by simp
  have len32: "length input < 4294967296"
    using len by simp
  have sz2: "sint (of_nat (length input) :: u32) = int (length input)"
    using len by (simp add: sint_of_nat_small)
  have sz: "sint (zip_length st) = int (length input)"
    by (simp add: zl sz2)
  have IH: "init_archive_scan st (int k - 1) =
     (case find (eocd_at input) (scan_offsets (max 0 (int (length input) - 65557)) (int k - 1)) of
        Some offset \<Rightarrow> st\<lparr>central_dir_offset := le32 (my_read input) (of_nat offset + 16)\<rparr>
      | None \<Rightarrow> st\<lparr>have_error := True\<rparr>)"
    using Suc.prems by (intro Suc.IH) simp
  show ?case
  proof (cases "int k < int (length input) - 65557")
    case True
    then have "scan_offsets (max 0 (int (length input) - 65557)) (int k) = []"
      by (subst scan_offsets.simps) simp
    moreover have "init_archive_scan st (int k) = st\<lparr>have_error := True\<rparr>"
      using True by (subst init_archive_scan.simps) (simp add: sz LOWZIP_MAX_EOCDIR_LENGTH_def)
    ultimately show ?thesis
      by simp
  next
    case False
    then have offs: "scan_offsets (max 0 (int (length input) - 65557)) (int k) =
        k # scan_offsets (max 0 (int (length input) - 65557)) (int k - 1)"
      by (subst scan_offsets.simps) simp
    have r4: "lowzip_read4 st (of_nat k) = (st, le32 (my_read input) (of_nat k))"
      using my_read_readable [of k 4 input] fit len32 by (simp add: read4_eq cb)
    have "readable (my_read input) (of_nat (k + 20)) 2"
      using fit len32 by (intro my_read_readable) simp_all
    then have r2: "lowzip_read2 st (of_nat k + 20) = (st, le16 (my_read input) (of_nat k + 20))"
      by (simp add: read2_eq cb)
    have "readable (my_read input) (of_nat (k + 16)) 4"
      using fit len32 by (intro my_read_readable) simp_all
    then have r16: "lowzip_read4 st (of_nat k + 16) = (st, le32 (my_read input) (of_nat k + 16))"
      by (simp add: read4_eq cb)
    define c where "c = le16 (my_read input) (of_nat k + 20)"
    have "unat (le16 (my_read input) (of_nat (k + 20))) < 65536"
      using fit len32 by (intro le16_my_read_bound) simp_all
    then have cb16: "unat c < 65536"
      by (simp add: c_def)
    have "unat ((of_nat k :: u32) + 22 + c) = k + 22 + unat c"
      using fit len cb16 by (simp add: unat_word_ariths unat_of_nat)
    moreover have "unat (of_nat (length input) :: u32) = length input"
      using len32 by (simp add: unat_of_nat)
    ultimately have cmp: "((of_nat k :: u32) + 22 + c = of_nat (length input)) \<longleftrightarrow>
        (k + 22 + unat c = length input)"
      by (metis word_unat_eq_iff)
    have step: "init_archive_scan st (int k) =
        (if eocd_at input k then st\<lparr>central_dir_offset := le32 (my_read input) (of_nat k + 16)\<rparr>
         else init_archive_scan st (int k - 1))"
      using False ne r4 r2 r16 cmp
      by (subst init_archive_scan.simps)
         (simp add: sz2 zl LOWZIP_MAX_EOCDIR_LENGTH_def LOWZIP_MIN_EOCDIR_LENGTH_def eocd_at_def c_def)
    show ?thesis
      using step IH offs by simp
  qed
qed


lemma scan_offsets_eq:
  "0 \<le> lowest \<Longrightarrow> scan_offsets lowest offset = rev [nat lowest ..< nat (offset + 1)]"
proof (induction lowest offset rule: scan_offsets.induct)
  case (1 lowest offset)
  show ?case
  proof (cases "offset < lowest")
    case True
    then show ?thesis
      using "1.prems" by (subst scan_offsets.simps) simp
  next
    case False
    then have "nat (offset + 1) = Suc (nat offset)" and "nat lowest \<le> nat offset"
      using "1.prems" by simp_all
    then have "rev [nat lowest ..< nat (offset + 1)] = nat offset # rev [nat lowest ..< nat offset]"
      by simp
    moreover have "scan_offsets lowest (offset - 1) = rev [nat lowest ..< nat (offset - 1 + 1)]"
      using False "1.prems" by (intro "1.IH") simp_all
    ultimately show ?thesis
      using False by (subst scan_offsets.simps) simp
  qed
qed

lemma scan_offsets_eocd_offsets:
  "scan_offsets (max 0 (int (length input) - 65557)) (int (length input) - 22) = eocd_offsets input"
proof -
  have "nat (max 0 (int (length input) - 65557)) = length input - 65557"
    by simp
  moreover have "nat (int (length input) - 22 + 1) = length input - 21"
    by simp
  ultimately show ?thesis
    by (simp only: scan_offsets_eq [OF max.cobounded1] eocd_offsets_def)
qed

text \<open>
  Claim C5. For an archive of less than \<open>2^31\<close> bytes that the callback reads and whose
  length is \<open>zip_length\<close>, \<open>lowzip_init_archive\<close> accepts the first offset of
  \<open>eocd_offsets\<close>, that is the highest one, at which \<open>eocd_at\<close> holds; it then returns
  without error and with the 4-byte value at that offset plus 16 in \<open>central_dir_offset\<close>,
  and nothing else changed. When no offset is accepted it returns with \<open>have_error\<close> set
  and nothing else changed.
\<close>

theorem init_archive_finds_highest_eocd:
  assumes cb: "read_callback st = my_read input" and zl: "zip_length st = of_nat (length input)"
    and len: "length input < 2147483648"
  shows "lowzip_init_archive st =
     (case find (eocd_at input) (eocd_offsets input) of
        Some offset \<Rightarrow> st\<lparr>have_error := False,
                           central_dir_offset := le32 (my_read input) (of_nat offset + 16)\<rparr>
      | None \<Rightarrow> st\<lparr>have_error := True\<rparr>)"
proof -
  define st0 where "st0 = st\<lparr>have_error := False\<rparr>"
  have cb0: "read_callback st0 = my_read input" and zl0: "zip_length st0 = of_nat (length input)"
    and ne0: "\<not> have_error st0"
    using cb zl by (simp_all add: st0_def)
  have "sint (of_nat (length input) :: u32) = int (length input)"
    using len by (simp add: sint_of_nat_small)
  then have start: "lowzip_init_archive st = init_archive_scan st0 (int (length input) - 22)"
    by (simp add: lowzip_init_archive_def Let_def st0_def zl LOWZIP_MIN_EOCDIR_LENGTH_def)
  have "init_archive_scan st0 (int (length input) - 22) =
     (case find (eocd_at input) (eocd_offsets input) of
        Some offset \<Rightarrow> st0\<lparr>central_dir_offset := le32 (my_read input) (of_nat offset + 16)\<rparr>
      | None \<Rightarrow> st0\<lparr>have_error := True\<rparr>)"
  proof (cases "21 \<le> length input")
    case True
    then have "int (length input - 21) - 1 = int (length input) - 22"
      by simp
    with scan_finds [OF cb0 zl0 len ne0, of "length input - 21"] show ?thesis
      by (simp add: scan_offsets_eocd_offsets)
  next
    case False
    then have "eocd_offsets input = []"
      by (simp add: eocd_offsets_def)
    moreover have "init_archive_scan st0 (int (length input) - 22) = st0\<lparr>have_error := True\<rparr>"
      using False by (intro scan_negative [OF cb0 zl0 len ne0]) simp_all
    ultimately show ?thesis
      by simp
  qed
  then show ?thesis
    by (simp add: start st0_def split: option.splits)
qed

text \<open>
  An archive that is one end of central directory record with a comment of 26 bytes, where
  the comment starts with the magic: the record at offset 22 is refused for its comment
  length, the one at offset 0 is accepted, and \<open>central_dir_offset\<close> becomes 7. The empty
  archive has no record.
\<close>

definition eocd_in_comment :: "u8 list" where
  "eocd_in_comment =
     [0x50, 0x4b, 0x05, 0x06, 0, 0, 0, 0, 0, 0, 0, 0, 0, 0, 0, 0, 7, 0, 0, 0, 26, 0,
      0x50, 0x4b, 0x05, 0x06, 255, 255, 255, 255, 255, 255, 255, 255, 255, 255, 255, 255,
      255, 255, 255, 255, 255, 255, 255, 255, 255, 255]"

theorem init_archive_finds_highest_eocd_witness:
  "read_callback (test_state eocd_in_comment 0) = my_read eocd_in_comment \<and>
   zip_length (test_state eocd_in_comment 0) = of_nat (length eocd_in_comment) \<and>
   length eocd_in_comment < 2147483648 \<and>
   eocd_offsets eocd_in_comment = rev [0 ..< 27] \<and>
   find (eocd_at eocd_in_comment) (eocd_offsets eocd_in_comment) = Some 0 \<and>
   \<not> have_error (lowzip_init_archive ((test_state eocd_in_comment 0)\<lparr>have_error := True\<rparr>)) \<and>
   central_dir_offset (lowzip_init_archive (test_state eocd_in_comment 0)) = 7 \<and>
   have_error (lowzip_init_archive (test_state [] 0))"
proof -
  have cb: "read_callback (test_state input 0) = my_read input"
    and zl: "zip_length (test_state input 0) = of_nat (length input)" for input
    by (simp_all add: test_state_def)
  have len: "length eocd_in_comment < 2147483648"
    by (simp add: eocd_in_comment_def)
  have l48: "length eocd_in_comment = 48"
    by (simp add: eocd_in_comment_def)
  have "(48 :: nat) - 65557 = 0" and "(48 :: nat) - 21 = 27"
    by simp_all
  then have offs: "eocd_offsets eocd_in_comment = rev [0 ..< 27]"
    by (simp only: eocd_offsets_def l48)
  have "find (eocd_at eocd_in_comment) (rev [0 ..< 27]) = Some 0"
    by code_simp
  then have found: "find (eocd_at eocd_in_comment) (eocd_offsets eocd_in_comment) = Some 0"
    by (simp only: offs)
  have cd: "le32 (my_read eocd_in_comment) (of_nat 0 + 16) = 7"
    by code_simp
  have none: "find (eocd_at []) (eocd_offsets []) = None"
    by (simp add: eocd_offsets_def)
  have a: "lowzip_init_archive (test_state eocd_in_comment 0) =
      (test_state eocd_in_comment 0)\<lparr>have_error := False, central_dir_offset := 7\<rparr>"
    using init_archive_finds_highest_eocd [OF cb zl len] found cd by simp
  have "lowzip_init_archive ((test_state eocd_in_comment 0)\<lparr>have_error := True\<rparr>) =
      (test_state eocd_in_comment 0)\<lparr>have_error := False, central_dir_offset := 7\<rparr>"
    using init_archive_finds_highest_eocd [of "(test_state eocd_in_comment 0)\<lparr>have_error := True\<rparr>"
        eocd_in_comment] cb zl len found cd by simp
  moreover have "lowzip_init_archive (test_state [] 0) = (test_state [] 0)\<lparr>have_error := True\<rparr>"
    using init_archive_finds_highest_eocd [OF cb zl, of "[]"] none by simp
  ultimately show ?thesis
    using a cb zl len offs found by simp
qed

end
